theory Spec2Isabelle
  imports Main "HOL-Library.Sublist" "HOL-Library.Multiset" "HOL-Library.Log_Nat"
    "HOL-Library.Code_Target_Numeral"
begin

section \<open>Strings\<close>

text \<open>
  JavaScript strings are sequences of code units. Error messages and hex hashes are
  modelled as \<^typ>\<open>string\<close>, each \<^typ>\<open>char\<close> read as the code unit of the same number
  (0 to 255). On that range \<open>String.prototype.toLowerCase\<close> maps \<open>A\<close> to \<open>Z\<close> (65 to 90) and
  the Latin-1 capitals (192 to 222, without the multiplication sign 215) to the code unit
  32 higher, and leaves every other code unit as it is.
\<close>

definition lower_char :: "char \<Rightarrow> char" where
  "lower_char c =
     (let n = (of_char c :: nat)
      in if (65 \<le> n \<and> n \<le> 90) \<or> (192 \<le> n \<and> n \<le> 222 \<and> n \<noteq> 215)
         then char_of (n + 32) else c)"

definition toLowerCase :: "string \<Rightarrow> string" where
  "toLowerCase s = map lower_char s"

text \<open>\<open>s.includes(needle)\<close>: the needle occurs in \<open>s\<close> as a contiguous substring.\<close>

fun str_includes :: "string \<Rightarrow> string \<Rightarrow> bool" where
  "str_includes [] needle = (needle = [])"
| "str_includes (c # cs) needle =
     (take (length needle) (c # cs) = needle \<or> str_includes cs needle)"

section \<open>Broadcast error classification\<close>

text \<open>
  The categories are the strings \<open>categorizeError\<close> returns. The argument is
  \<open>None\<close> for \<open>undefined\<close> or \<open>null\<close>; \<open>!errorMsg\<close> holds for those and for the empty
  string.
\<close>

datatype category =
    unknown | gas_price_too_low | nonce_too_low | nonce_too_high | already_known
  | replacement_underpriced | insufficient_funds | gas_too_low | timeout
  | connection_error | execution_reverted | other

text \<open>\<open>categorizeError\<close> of the mixed-payload driver.\<close>

definition categorizeError :: "string option \<Rightarrow> category" where
  "categorizeError errorMsg =
     (case errorMsg of
        None \<Rightarrow> unknown
      | Some e \<Rightarrow>
          if e = [] then unknown
          else let msg = toLowerCase e in
            if str_includes msg ''max fee per gas less than block base fee'' then gas_price_too_low
            else if str_includes msg ''nonce too low'' then nonce_too_low
            else if str_includes msg ''nonce too high'' then nonce_too_high
            else if str_includes msg ''already known'' then already_known
            else if str_includes msg ''replacement transaction underpriced''
              then replacement_underpriced
            else if str_includes msg ''insufficient funds'' then insufficient_funds
            else if str_includes msg ''intrinsic gas too low'' then gas_too_low
            else if str_includes msg ''timeout'' \<or> str_includes msg ''ETIMEDOUT'' then timeout
            else if str_includes msg ''connection'' \<or> str_includes msg ''ECONNREFUSED''
              then connection_error
            else if str_includes msg ''execution reverted'' then execution_reverted
            else other)"

text \<open>\<open>categorizeError\<close> of the single-type driver: the same chain without the
  \<open>execution reverted\<close> test.\<close>

definition categorizeError_simple :: "string option \<Rightarrow> category" where
  "categorizeError_simple errorMsg =
     (case errorMsg of
        None \<Rightarrow> unknown
      | Some e \<Rightarrow>
          if e = [] then unknown
          else let msg = toLowerCase e in
            if str_includes msg ''max fee per gas less than block base fee'' then gas_price_too_low
            else if str_includes msg ''nonce too low'' then nonce_too_low
            else if str_includes msg ''nonce too high'' then nonce_too_high
            else if str_includes msg ''already known'' then already_known
            else if str_includes msg ''replacement transaction underpriced''
              then replacement_underpriced
            else if str_includes msg ''insufficient funds'' then insufficient_funds
            else if str_includes msg ''intrinsic gas too low'' then gas_too_low
            else if str_includes msg ''timeout'' \<or> str_includes msg ''ETIMEDOUT'' then timeout
            else if str_includes msg ''connection'' \<or> str_includes msg ''ECONNREFUSED''
              then connection_error
            else other)"

text \<open>
  The taxonomy as a table: an ordered list of (substring, category) rules, the first rule
  whose substring occurs in the lower-cased text wins, and \<open>other\<close> is the default.
\<close>

fun first_match :: "(string \<times> category) list \<Rightarrow> string \<Rightarrow> category" where
  "first_match [] msg = other"
| "first_match ((needle, cat) # rules) msg =
     (if str_includes msg needle then cat else first_match rules msg)"

text \<open>The order in which the single-type driver tests its lower-case substrings.\<close>

definition rules_simple :: "(string \<times> category) list" where
  "rules_simple =
     [(''max fee per gas less than block base fee'', gas_price_too_low),
      (''nonce too low'', nonce_too_low),
      (''nonce too high'', nonce_too_high),
      (''already known'', already_known),
      (''replacement transaction underpriced'', replacement_underpriced),
      (''insufficient funds'', insufficient_funds),
      (''intrinsic gas too low'', gas_too_low),
      (''timeout'', timeout),
      (''connection'', connection_error)]"

text \<open>The mixed-payload driver tests \<open>execution reverted\<close> after all of them.\<close>

definition rules_mixed :: "(string \<times> category) list" where
  "rules_mixed = rules_simple @ [(''execution reverted'', execution_reverted)]"

text \<open>The priority order as the specification lists it: \<open>execution reverted\<close> before
  \<open>timeout\<close> and \<open>connection\<close>.\<close>

definition rules_as_specified :: "(string \<times> category) list" where
  "rules_as_specified =
     [(''max fee per gas less than block base fee'', gas_price_too_low),
      (''nonce too low'', nonce_too_low),
      (''nonce too high'', nonce_too_high),
      (''already known'', already_known),
      (''replacement transaction underpriced'', replacement_underpriced),
      (''insufficient funds'', insufficient_funds),
      (''intrinsic gas too low'', gas_too_low),
      (''execution reverted'', execution_reverted),
      (''timeout'', timeout),
      (''connection'', connection_error)]"

section \<open>Payload generator\<close>

text \<open>
  \<open>TX_TYPES\<close>, the mix \<open>{ethTransfer, tokenTransfer, swap}\<close>, the contract addresses and a
  sender wallet. \<open>getNonce\<close> is what \<open>s.getNonce()\<close> resolves to when the generator asks
  the chain (\<open>None\<close>: the call rejects). An address is \<open>None\<close> when it is not configured;
  \<open>!contracts.token\<close> holds for that and for the empty string.
\<close>

datatype tx_type = ETH_TRANSFER | TOKEN_TRANSFER | SWAP

record tx_mix =
  ethTransfer :: int
  tokenTransfer :: int
  swap :: int

record contracts =
  token :: "string option"
  router :: "string option"
  weth :: "string option"

record wallet =
  address :: string
  getNonce :: "nat option"

definition falsy :: "string option \<Rightarrow> bool" where
  "falsy a = (case a of None \<Rightarrow> True | Some s \<Rightarrow> s = [])"

text \<open>
  The call data is kept as the function and its arguments. The ABI encoding is the
  library's: \<^verbatim>\<open>iface.encodeFunctionData\<close> returns the encoded call, or throws when an argument
  is not of its type (a string that is not an address, a number outside \<^verbatim>\<open>uint256\<close>). Which
  calls it encodes is a parameter of the model, \<open>encodes\<close> below. A transaction carries the
  two fee fields of \<open>gasParams\<close>.
\<close>

datatype call_data =
    Transfer_call string nat
  | SwapExactETHForTokens_call nat "string option list" string int

record gas_params =
  maxFeePerGas :: nat
  maxPriorityFeePerGas :: nat

record transaction = gas_params +
  to :: "string option"
  value_wei :: nat
  data :: "call_data option"
  nonce :: nat
  gasLimit :: nat
  chainId :: nat

text \<open>A descriptor of the single-type driver is \<open>{sender, tx, index}\<close>; the generator's
  has \<open>txType\<close> as well.\<close>

record descriptor =
  sender :: wallet
  tx :: transaction
  index :: nat

record unsigned_tx = descriptor +
  txType :: tx_type

text \<open>
  The configuration fields the generator reads. \<open>ethValue\<close>, \<open>tokenAmount\<close> and
  \<open>swapEthAmount\<close> are the amounts parsed from \<open>config.txValue\<close>, \<open>config.tokenTxValue\<close>
  and \<open>config.swapValue\<close>; \<open>cfg_gasLimit\<close> is \<open>config.gasLimit\<close>.
  What the generator takes from outside while it runs: the fee parameters derived from
  \<open>provider.getFeeData()\<close> (\<open>None\<close>: the call rejects), the two random recipient
  addresses, \<open>Math.floor(Date.now() / 1000)\<close> as read while descriptor \<open>i\<close> is built, and
  the calls the library's encoder takes.
\<close>

record gen_config =
  txCount :: int
  txMix :: "tx_mix option"
  cfg_gasLimit :: "nat option"
  ethValue :: nat
  tokenAmount :: nat
  swapEthAmount :: nat

record runtime =
  feeParams :: "gas_params option"
  ethRecipient :: string
  tokenRecipient :: string
  now_seconds :: "nat \<Rightarrow> int"
  encodes :: "call_data \<Rightarrow> bool"

record options =
  senders :: "wallet list"
  provider :: runtime
  opt_chainId :: nat
  config :: gen_config
  opt_contracts :: contracts

datatype gen_error =
    TokenAddressRequired
  | SwapAddressesRequired
  | NonceQueryRejected
  | FeeDataRejected
  | SenderUndefined
  | NonceUndefined
  | EncodingFailed

text \<open>
  What \<open>generatePayload\<close> returns: the descriptors and \<open>expectedTxDetails.counts\<close>.
  \<open>nonceQueries\<close> lists the addresses whose on-chain nonce was queried, in order.
\<close>

record payload =
  unsignedTxs :: "unsigned_tx list"
  ethCount :: int
  tokenCount :: int
  swapCount :: int
  nonceQueries :: "string list"

definition generateEthTransferTx ::
  "nat \<Rightarrow> string \<Rightarrow> nat \<Rightarrow> gas_params \<Rightarrow> nat \<Rightarrow> nat \<Rightarrow> transaction" where
  "generateEthTransferTx n recipient v gasParams cid glimit =
     \<lparr>maxFeePerGas = maxFeePerGas gasParams,
      maxPriorityFeePerGas = maxPriorityFeePerGas gasParams,
      to = Some recipient, value_wei = v, data = None, nonce = n, gasLimit = glimit,
      chainId = cid\<rparr>"

text \<open>
  The two generators that encode a call: the first argument is the library's encoder, and
  the result is an error when \<^verbatim>\<open>encodeFunctionData\<close> throws.
\<close>

definition generateTokenTransferTx ::
  "(call_data \<Rightarrow> bool) \<Rightarrow> nat \<Rightarrow> string option \<Rightarrow> string \<Rightarrow> nat \<Rightarrow> gas_params \<Rightarrow> nat
    \<Rightarrow> gen_error + transaction" where
  "generateTokenTransferTx enc n tokenAddress recipient amount gasParams cid =
     (if enc (Transfer_call recipient amount)
      then Inr \<lparr>maxFeePerGas = maxFeePerGas gasParams,
                maxPriorityFeePerGas = maxPriorityFeePerGas gasParams,
                to = tokenAddress, value_wei = 0, data = Some (Transfer_call recipient amount),
                nonce = n, gasLimit = 100000, chainId = cid\<rparr>
      else Inl EncodingFailed)"

definition generateSwapTx ::
  "(call_data \<Rightarrow> bool) \<Rightarrow> wallet \<Rightarrow> nat \<Rightarrow> string option \<Rightarrow> string option \<Rightarrow> string option
    \<Rightarrow> nat \<Rightarrow> gas_params \<Rightarrow> nat \<Rightarrow> int \<Rightarrow> gen_error + transaction" where
  "generateSwapTx enc s n routerAddress wethAddress tokenAddress ethAmount gasParams cid now =
     (let deadline = now + 3600;
          path = [wethAddress, tokenAddress]
      in if enc (SwapExactETHForTokens_call 0 path (address s) deadline)
         then Inr \<lparr>maxFeePerGas = maxFeePerGas gasParams,
                   maxPriorityFeePerGas = maxPriorityFeePerGas gasParams,
                   to = routerAddress, value_wei = ethAmount,
                   data = Some (SwapExactETHForTokens_call 0 path (address s) deadline),
                   nonce = n, gasLimit = 200000, chainId = cid\<rparr>
         else Inl EncodingFailed)"

text \<open>The \<open>while\<close> loop that interleaves the three types into \<open>txAssignments\<close>.\<close>

function interleave :: "int \<Rightarrow> int \<Rightarrow> int \<Rightarrow> tx_type list" where
  "interleave ethRemaining tokenRemaining swapRemaining =
     (if ethRemaining > 0 \<or> tokenRemaining > 0 \<or> swapRemaining > 0 then
        (if ethRemaining > 0 then [ETH_TRANSFER] else [])
        @ (if tokenRemaining > 0 then [TOKEN_TRANSFER] else [])
        @ (if swapRemaining > 0 then [SWAP] else [])
        @ interleave (if ethRemaining > 0 then ethRemaining - 1 else ethRemaining)
            (if tokenRemaining > 0 then tokenRemaining - 1 else tokenRemaining)
            (if swapRemaining > 0 then swapRemaining - 1 else swapRemaining)
      else [])"
  by pat_completeness auto
termination
  by (relation "measure (\<lambda>(e, t, s). nat e + nat t + nat s)") auto

declare interleave.simps [simp del]

text \<open>\<open>new Map(senders.map((s, i) => [s.address, nonces[i]]))\<close>: a later entry for the
  same address replaces an earlier one.\<close>

fun set_entry :: "wallet \<times> nat \<Rightarrow> (string \<rightharpoonup> nat) \<Rightarrow> (string \<rightharpoonup> nat)" where
  "set_entry (s, n) m = m(address s \<mapsto> n)"

definition initSenderNonces :: "wallet list \<Rightarrow> nat list \<Rightarrow> (string \<rightharpoonup> nat)" where
  "initSenderNonces ss nonces = fold set_entry (zip ss nonces) Map.empty"

text \<open>
  The \<open>for\<close> loop over \<open>txAssignments\<close>, from index \<open>i\<close> on, with the map
  \<open>senderNonces\<close> as its state. With no sender, \<open>senders[i % 0]\<close> is \<open>undefined\<close> and
  reading its address throws. \<open>NonceUndefined\<close> stands for a sender whose address is not a
  key of the map, which the map's construction rules out. A generator that throws ends the
  loop at its descriptor.
\<close>

definition make_tx ::
  "options \<Rightarrow> gas_params \<Rightarrow> tx_type \<Rightarrow> wallet \<Rightarrow> nat \<Rightarrow> nat \<Rightarrow> gen_error + transaction" where
  "make_tx opts gasParams ty s n i =
     (case ty of
        ETH_TRANSFER \<Rightarrow>
          Inr (generateEthTransferTx n (ethRecipient (provider opts)) (ethValue (config opts))
            gasParams (opt_chainId opts)
            (case cfg_gasLimit (config opts) of
               None \<Rightarrow> 21000 | Some g \<Rightarrow> if g = 0 then 21000 else g))
      | TOKEN_TRANSFER \<Rightarrow>
          generateTokenTransferTx (encodes (provider opts)) n (token (opt_contracts opts))
            (tokenRecipient (provider opts)) (tokenAmount (config opts)) gasParams
            (opt_chainId opts)
      | SWAP \<Rightarrow>
          generateSwapTx (encodes (provider opts)) s n (router (opt_contracts opts))
            (weth (opt_contracts opts)) (token (opt_contracts opts))
            (swapEthAmount (config opts)) gasParams (opt_chainId opts)
            (now_seconds (provider opts) i))"

fun build_unsigned ::
  "options \<Rightarrow> gas_params \<Rightarrow> nat \<Rightarrow> (string \<rightharpoonup> nat) \<Rightarrow> tx_type list
    \<Rightarrow> gen_error + unsigned_tx list" where
  "build_unsigned opts gasParams i senderNonces [] = Inr []"
| "build_unsigned opts gasParams i senderNonces (ty # tys) =
     (if senders opts = [] then Inl SenderUndefined
      else
        let s = senders opts ! (i mod length (senders opts)) in
        case senderNonces (address s) of
          None \<Rightarrow> Inl NonceUndefined
        | Some n \<Rightarrow>
            (case make_tx opts gasParams ty s n i of
               Inl e \<Rightarrow> Inl e
             | Inr t \<Rightarrow>
                 (case build_unsigned opts gasParams (i + 1)
                         (senderNonces(address s \<mapsto> n + 1)) tys of
                    Inl e \<Rightarrow> Inl e
                  | Inr rest \<Rightarrow>
                      Inr (\<lparr>sender = s, tx = t, index = i, txType = ty\<rparr> # rest))))"

text \<open>\<open>Promise.all(senders.map(s => s.getNonce()))\<close>: one query per sender; it rejects when
  one of them does.\<close>

definition fetch_nonces :: "wallet list \<Rightarrow> nat list option" where
  "fetch_nonces ss =
     (if list_all (\<lambda>s. getNonce s \<noteq> None) ss
      then Some (map (\<lambda>s. case getNonce s of Some n \<Rightarrow> n | None \<Rightarrow> 0) ss) else None)"

text \<open>\<open>config.txMix || {ethTransfer: 100, tokenTransfer: 0, swap: 0}\<close> and the three counts:
  two floors and the remainder.\<close>

definition mix_of :: "gen_config \<Rightarrow> tx_mix" where
  "mix_of cfg =
     (case txMix cfg of
        None \<Rightarrow> \<lparr>ethTransfer = 100, tokenTransfer = 0, swap = 0\<rparr>
      | Some m \<Rightarrow> m)"

definition calc_ethCount :: "gen_config \<Rightarrow> int" where
  "calc_ethCount cfg = (txCount cfg * ethTransfer (mix_of cfg)) div 100"

definition calc_tokenCount :: "gen_config \<Rightarrow> int" where
  "calc_tokenCount cfg = (txCount cfg * tokenTransfer (mix_of cfg)) div 100"

definition calc_swapCount :: "gen_config \<Rightarrow> int" where
  "calc_swapCount cfg = txCount cfg - calc_ethCount cfg - calc_tokenCount cfg"

definition generatePayload :: "options \<Rightarrow> gen_error + payload" where
  "generatePayload opts =
     (let ethCount = calc_ethCount (config opts);
          tokenCount = calc_tokenCount (config opts);
          swapCount = calc_swapCount (config opts)
      in
        if tokenCount > 0 \<and> falsy (token (opt_contracts opts)) then Inl TokenAddressRequired
        else if swapCount > 0 \<and> (falsy (router (opt_contracts opts))
                \<or> falsy (weth (opt_contracts opts)) \<or> falsy (token (opt_contracts opts)))
          then Inl SwapAddressesRequired
        else
          case fetch_nonces (senders opts) of
            None \<Rightarrow> Inl NonceQueryRejected
          | Some nonces \<Rightarrow>
              (case feeParams (provider opts) of
                 None \<Rightarrow> Inl FeeDataRejected
               | Some gasParams \<Rightarrow>
                   (case build_unsigned opts gasParams 0
                           (initSenderNonces (senders opts) nonces)
                           (interleave ethCount tokenCount swapCount) of
                      Inl e \<Rightarrow> Inl e
                    | Inr txs \<Rightarrow>
                        Inr \<lparr>unsignedTxs = txs, ethCount = ethCount,
                              tokenCount = tokenCount, swapCount = swapCount,
                              nonceQueries = map address (senders opts)\<rparr>)))"

section \<open>Mix normalization\<close>

text \<open>
  JavaScript numbers are IEEE 754 doubles. \<open>fl x\<close> is the double nearest to the rational
  \<open>x\<close>, ties to the even significand: with \<open>2\<^sup>e \<le> |x| < 2\<^sup>e\<^sup>+\<^sup>1\<close> the significand is
  \<open>|x| / 2\<^sup>e\<^sup>-\<^sup>5\<^sup>2\<close> rounded to an integer. The exponent range is not bounded here (no
  overflow, no subnormal numbers), which is exact for the magnitudes between \<open>2\<^sup>-\<^sup>1\<^sup>0\<^sup>2\<^sup>2\<close>
  and \<open>2\<^sup>1\<^sup>0\<^sup>2\<^sup>3\<close>. A floating-point division or multiplication is \<open>fl\<close> of the exact
  result. \<open>Math.round\<close> rounds to the nearest integer, a tie towards \<open>+\<infinity>\<close>.
\<close>

definition round_half_even :: "rat \<Rightarrow> int" where
  "round_half_even m =
     (let f = \<lfloor>m\<rfloor>; d = m - of_int f
      in if d < 1 / 2 then f else if d > 1 / 2 then f + 1 else if even f then f else f + 1)"

definition fl :: "rat \<Rightarrow> rat" where
  "fl x =
     (if x = 0 then 0
      else
        let a = \<bar>x\<bar>;
            k = int (floorlog 2 (nat (fst (quotient_of a))))
                  - int (floorlog 2 (nat (snd (quotient_of a))));
            e = (if 2 powi k \<le> a then k else k - 1);
            u = 2 powi (e - 52)
        in sgn x * of_int (round_half_even (a / u)) * u)"

definition js_round :: "rat \<Rightarrow> int" where
  "js_round x = \<lfloor>x + 1 / 2\<rfloor>"

text \<open>\<open>(part / total) * 100\<close> for integers of magnitude below \<open>2\<^sup>5\<^sup>3\<close> (they are doubles)
  and a total other than zero.\<close>

definition scaled :: "int \<Rightarrow> int \<Rightarrow> rat" where
  "scaled part tot = fl (fl (of_int part / of_int tot) * 100)"

text \<open>
  A number as \<open>parseTxMix\<close> can return it. \<open>Math.round((part / total) * 100)\<close> with a zero
  total is \<open>NaN\<close> for \<open>0 / 0\<close> and an infinity otherwise.
\<close>

datatype jsnum = Num int | NaN | PosInfinity | NegInfinity

definition round_share :: "int \<Rightarrow> int \<Rightarrow> jsnum" where
  "round_share part tot =
     (if tot = 0 then (if part = 0 then NaN else if part > 0 then PosInfinity else NegInfinity)
      else Num (js_round (scaled part tot)))"

record js_mix =
  js_ethTransfer :: jsnum
  js_tokenTransfer :: jsnum
  js_swap :: jsnum

text \<open>
  \<open>parseTxMix\<close>. The argument is \<open>None\<close> for a falsy \<open>mixString\<close>, and otherwise the list
  \<open>parts\<close> that \<open>split(':')\<close> and \<open>parseInt(...) || 0\<close> give; the destructuring
  \<open>[eth = 100, token = 0, swap = 0] = parts\<close> fills in what the list lacks.
\<close>

definition parseTxMix :: "int list option \<Rightarrow> js_mix" where
  "parseTxMix mixString =
     (case mixString of
        None \<Rightarrow> \<lparr>js_ethTransfer = Num 100, js_tokenTransfer = Num 0, js_swap = Num 0\<rparr>
      | Some parts \<Rightarrow>
          let eth = (case parts of [] \<Rightarrow> 100 | e # _ \<Rightarrow> e);
              tok = (case drop 1 parts of [] \<Rightarrow> 0 | t # _ \<Rightarrow> t);
              swp = (case drop 2 parts of [] \<Rightarrow> 0 | s # _ \<Rightarrow> s);
              tot = eth + tok + swp
          in \<lparr>js_ethTransfer = round_share eth tot,
               js_tokenTransfer = round_share tok tot,
               js_swap = round_share swp tot\<rparr>)"

section \<open>Descriptors of the single-type driver\<close>

text \<open>
  The first half of \<open>prepareAndSignTransactions\<close> in the single-type driver. Its
  configuration always carries a gas limit. The inner loop gives one sender its block of
  descriptors, the outer loop walks the senders with their fetched nonces while
  \<open>txIndex < config.txCount\<close>.
\<close>

record simple_config =
  sc_txCount :: int
  sc_gasLimit :: nat
  sc_txValue :: nat

function inner_loop ::
  "wallet \<Rightarrow> (nat \<Rightarrow> transaction) \<Rightarrow> int \<Rightarrow> int \<Rightarrow> nat \<Rightarrow> nat \<Rightarrow> nat \<Rightarrow> descriptor list" where
  "inner_loop s mk txsForThisSender cnt i txIndex n =
     (if int i < txsForThisSender \<and> int txIndex < cnt
      then \<lparr>sender = s, tx = mk n, index = txIndex\<rparr>
             # inner_loop s mk txsForThisSender cnt (i + 1) (txIndex + 1) (n + 1)
      else [])"
  by pat_completeness auto
termination
  by (relation "measure (\<lambda>(s, mk, k, cnt, i, txIndex, n). nat (k - int i))") auto

declare inner_loop.simps [simp del]

fun outer_loop ::
  "(nat \<Rightarrow> transaction) \<Rightarrow> int \<Rightarrow> int \<Rightarrow> nat \<Rightarrow> (wallet \<times> nat) list \<Rightarrow> descriptor list" where
  "outer_loop mk txPerSender cnt txIndex [] = []"
| "outer_loop mk txPerSender cnt txIndex ((s, n) # rest) =
     (if int txIndex < cnt then
        let txsForThisSender = min txPerSender (cnt - int txIndex);
            block = inner_loop s mk txsForThisSender cnt 0 txIndex n
        in block @ outer_loop mk txPerSender cnt (txIndex + length block) rest
      else [])"

text \<open>\<open>Math.ceil(config.txCount / senders.length)\<close> for at least one sender. With no
  sender neither loop body runs and the result is empty.\<close>

definition simple_tx :: "gas_params \<Rightarrow> runtime \<Rightarrow> simple_config \<Rightarrow> nat \<Rightarrow> nat \<Rightarrow> transaction" where
  "simple_tx gasParams prov cfg cid n =
     \<lparr>maxFeePerGas = maxFeePerGas gasParams,
      maxPriorityFeePerGas = maxPriorityFeePerGas gasParams,
      to = Some (ethRecipient prov), value_wei = sc_txValue cfg, data = None, nonce = n,
      gasLimit = sc_gasLimit cfg, chainId = cid\<rparr>"

definition prepareTransactions_simple ::
  "wallet list \<Rightarrow> simple_config \<Rightarrow> nat \<Rightarrow> runtime \<Rightarrow> gen_error + descriptor list" where
  "prepareTransactions_simple ss cfg cid prov =
     (case fetch_nonces ss of
        None \<Rightarrow> Inl NonceQueryRejected
      | Some nonces \<Rightarrow>
          (case feeParams prov of
             None \<Rightarrow> Inl FeeDataRejected
           | Some gasParams \<Rightarrow>
               if ss = [] then Inr []
               else
                 let txPerSender = - ((- sc_txCount cfg) div int (length ss))
                 in Inr (outer_loop (simple_tx gasParams prov cfg cid) txPerSender
                           (sc_txCount cfg) 0 (zip ss nonces))))"

section \<open>Confirmation tracker\<close>

text \<open>
  A receipt, and what the tracker takes from outside: \<open>getTransactionReceipt env k h\<close> is
  what \<open>provider.getTransactionReceipt(h)\<close> gives in poll round \<open>k\<close> (\<open>None\<close> for \<open>null\<close> and
  for a rejected call, which the loop catches), and \<open>lag env k\<close> is the time in milliseconds
  that round \<open>k\<close> takes beyond the nominal sleep. Time is the number of milliseconds since
  \<open>startTime\<close>. The result carries, besides \<open>receipts\<close> and \<open>confirmDuration\<close>, the pending
  set at the end and the number of poll rounds.

  \<open>new Set(txHashes.map(t => t.hash))\<close> keeps the first occurrence of every hash, in order.
  \<open>poll_round\<close> is the \<open>Promise.all\<close> of one round over the hashes polled, without the
  \<open>null\<close> results; \<open>apply_results\<close> removes the hashes found from the pending set and appends
  their receipts. The single-type driver polls every pending hash and sleeps 100 ms, the
  mixed-payload driver polls the first 100 pending hashes and sleeps 500 ms; both sleep only
  while the pending set is not empty.
\<close>

record receipt =
  hash :: string
  blockNumber :: int
  status :: int

record poll_env =
  getTransactionReceipt :: "nat \<Rightarrow> string \<Rightarrow> receipt option"
  lag :: "nat \<Rightarrow> nat"

record confirm_result =
  receipts :: "receipt list"
  confirmDuration :: nat
  pending_left :: "string list"
  rounds :: nat

definition new_Set :: "string list \<Rightarrow> string list" where
  "new_Set xs = rev (remdups (rev xs))"

fun poll_round :: "poll_env \<Rightarrow> nat \<Rightarrow> string list \<Rightarrow> (string \<times> receipt) list" where
  "poll_round env k [] = []"
| "poll_round env k (h # batch) =
     (case getTransactionReceipt env k h of
        None \<Rightarrow> poll_round env k batch
      | Some r \<Rightarrow> (h, r) # poll_round env k batch)"

definition apply_results ::
  "(string \<times> receipt) list \<Rightarrow> string list \<Rightarrow> receipt list \<Rightarrow> string list \<times> receipt list" where
  "apply_results results pending rs =
     (filter (\<lambda>h. h \<notin> fst ` set results) pending, rs @ map snd results)"



function wait_loop_mixed ::
  "poll_env \<Rightarrow> nat \<Rightarrow> nat \<Rightarrow> nat \<Rightarrow> string list \<Rightarrow> receipt list \<Rightarrow> confirm_result" where
  "wait_loop_mixed env timeoutMs k elapsed pending rs =
     (if pending \<noteq> [] \<and> elapsed < timeoutMs then
        let results = poll_round env k (take 100 pending);
            (pending', rs') = apply_results results pending rs;
            elapsed' = elapsed + lag env k + (if pending' \<noteq> [] then 500 else 0)
        in wait_loop_mixed env timeoutMs (k + 1) elapsed' pending' rs'
      else \<lparr>receipts = rs, confirmDuration = elapsed, pending_left = pending, rounds = k\<rparr>)"
  by pat_completeness auto
termination
  by (relation "measure (\<lambda>(env, timeoutMs, k, elapsed, pending, rs).
        if pending = [] then 0 else 1 + (timeoutMs - elapsed))")
    (auto simp: apply_results_def)

declare wait_loop_mixed.simps [simp del]


definition waitForConfirmations_mixed :: "poll_env \<Rightarrow> string list \<Rightarrow> nat \<Rightarrow> confirm_result" where
  "waitForConfirmations_mixed env txHashes timeoutMs =
     wait_loop_mixed env timeoutMs 0 0 (new_Set txHashes) []"




definition silent_endpoint :: poll_env where
  "silent_endpoint = \<lparr>getTransactionReceipt = (\<lambda>k h. None), lag = (\<lambda>k. 3)\<rparr>"



section \<open>On-chain analysis\<close>

text \<open>
  \<^verbatim>\<open>analyzeBlockTPS\<close> of both drivers. An RPC call either rejects with a message or resolves;
  \<^verbatim>\<open>getBlock\<close>, \<^verbatim>\<open>getTransaction\<close> and \<^verbatim>\<open>getTransactionReceipt\<close> resolve to null for an unknown
  block or hash. The record \<open>analysis\<close> holds the counters the function returns and two
  things it does on the way: \<open>blockRequests\<close> are the calls \<^verbatim>\<open>getBlock(i, false)\<close> it makes, as
  pairs of the block number and the flag asking for full transaction bodies, and
  \<open>sampleResults\<close> is the table of sample rows it builds and prints. For the single-type
  driver \<open>ourTxCount\<close> is the count of the block-inclusion check, which it prints as found
  on-chain before \<^verbatim>\<open>config.verifyAll\<close> may replace the count it returns. The throughput
  arithmetic on the block timestamps is left out.
\<close>

datatype 'a rpc = Rejects string | Resolves 'a

record block =
  number :: int
  timestamp :: int
  transactions :: "string list"

record chain_tx =
  tx_from :: string
  tx_to :: "string option"
  tx_value :: nat

record chain =
  getBlock :: "int \<Rightarrow> block option rpc"
  getTransaction :: "string \<Rightarrow> chain_tx option rpc"
  fetchReceipt :: "string \<Rightarrow> receipt option rpc"

record sent =
  sent_hash :: string
  sent_index :: nat
  expectedFrom :: string
  sent_txType :: "tx_type option"

record expected =
  recipient :: string
  exp_value :: nat
  senderAddresses :: "string list"

datatype analysis_error = TypeError | RpcError string

record sample_result =
  sr_hash :: string
  sr_ok :: bool
  sr_reason :: "string option"

record analysis =
  blockRequests :: "(int \<times> bool) list"
  totalBlockTxCount :: nat
  ourTxCount :: nat
  verifiedTxCount :: nat
  verifiedSuccessfulCount :: nat
  revertedTxCount :: nat
  receiptsCount :: nat
  sampleVerified :: nat
  sampleSize :: nat
  sampleResults :: "sample_result list"

text \<open>\<^verbatim>\<open>[...new Set(receipts.map(r => r.blockNumber))].sort((a, b) => a - b)\<close>\<close>

definition blockNumbers_of :: "receipt list \<Rightarrow> int list" where
  "blockNumbers_of rs = sort (remdups (map blockNumber rs))"

text \<open>\<^verbatim>\<open>Promise.all\<close> over the requested blocks: one rejection rejects the whole.\<close>

fun fetch_blocks :: "chain \<Rightarrow> int list \<Rightarrow> analysis_error + block option list" where
  "fetch_blocks c [] = Inr []"
| "fetch_blocks c (i # is) =
     (case getBlock c i of
        Rejects msg \<Rightarrow> Inl (RpcError msg)
      | Resolves b \<Rightarrow>
          (case fetch_blocks c is of Inl e \<Rightarrow> Inl e | Inr bs \<Rightarrow> Inr (b # bs)))"

text \<open>
  The single-type driver's loop over the fetched blocks. It reads \<^verbatim>\<open>block.transactions\<close>
  without a null test, so a null block is a \<^verbatim>\<open>TypeError\<close>. The triple is
  \<^verbatim>\<open>verifiedTxCount\<close>, \<^verbatim>\<open>verifiedSuccessfulCount\<close>, \<^verbatim>\<open>totalBlockTxCount\<close>.
\<close>

fun count_simple ::
  "string list \<Rightarrow> string list \<Rightarrow> block option list \<Rightarrow> analysis_error + (nat \<times> nat \<times> nat)" where
  "count_simple ours good [] = Inr (0, 0, 0)"
| "count_simple ours good (None # bs) = Inl TypeError"
| "count_simple ours good (Some b # bs) =
     (case count_simple ours good bs of
        Inl e \<Rightarrow> Inl e
      | Inr (v, s, t) \<Rightarrow>
          Inr (length (filter (\<lambda>h. toLowerCase h \<in> set ours) (transactions b)) + v,
               length (filter (\<lambda>h. toLowerCase h \<in> set ours \<and> toLowerCase h \<in> set good)
                         (transactions b)) + s,
               length (transactions b) + t))"

text \<open>
  One sample row of the single-type driver: both fetches inside one \<^verbatim>\<open>try\<close>, the five
  checks, and the reason chain
  \<^verbatim>\<open>!fromMatch ? 'from' : !toMatch ? 'to' : !valueMatch ? 'value' : !statusOk ? 'status' : 'block'\<close>.
  \<^verbatim>\<open>tx.to?.toLowerCase()\<close> of a transaction without recipient is undefined and equals no
  string.
\<close>

definition short_hash :: "string \<Rightarrow> string" where
  "short_hash h = take 18 h @ ''...''"

definition check_sample ::
  "expected \<Rightarrow> chain \<Rightarrow> receipt \<Rightarrow> sample_result" where
  "check_sample ex c r =
     (case getTransaction c (hash r) of
        Rejects msg \<Rightarrow> \<lparr>sr_hash = short_hash (hash r), sr_ok = False, sr_reason = Some msg\<rparr>
      | Resolves txo \<Rightarrow>
          (case fetchReceipt c (hash r) of
             Rejects msg \<Rightarrow> \<lparr>sr_hash = short_hash (hash r), sr_ok = False, sr_reason = Some msg\<rparr>
           | Resolves txReceipt \<Rightarrow>
               (case (txo, txReceipt) of
                  (Some t, Some tr) \<Rightarrow>
                    let fromMatch = toLowerCase (tx_from t) \<in> set (senderAddresses ex);
                        toMatch = (map_option toLowerCase (tx_to t) = Some (recipient ex));
                        valueMatch = (tx_value t = exp_value ex);
                        statusOk = (status tr = 1);
                        blockConfirmed = (blockNumber tr > 0)
                    in if fromMatch \<and> toMatch \<and> valueMatch \<and> statusOk \<and> blockConfirmed
                       then \<lparr>sr_hash = short_hash (hash r), sr_ok = True, sr_reason = None\<rparr>
                       else \<lparr>sr_hash = short_hash (hash r), sr_ok = False,
                              sr_reason = Some (if \<not> fromMatch then ''from''
                                                else if \<not> toMatch then ''to''
                                                else if \<not> valueMatch then ''value''
                                                else if \<not> statusOk then ''status''
                                                else ''block'')\<rparr>
                | _ \<Rightarrow> \<lparr>sr_hash = short_hash (hash r), sr_ok = False, sr_reason = Some ''not found''\<rparr>)))"

text \<open>\<^verbatim>\<open>Math.floor((i / sampleSize) * receipts.length)\<close> for \<open>i\<close> below \<^verbatim>\<open>Math.min(10, receipts.length)\<close>,
  in double arithmetic.\<close>

definition sampleIndices :: "nat \<Rightarrow> nat list" where
  "sampleIndices len =
     (let sampleSize = min 10 len
      in map (\<lambda>i. nat \<lfloor>fl (fl (of_nat i / of_nat sampleSize) * of_nat len)\<rfloor>)
           [0 ..< sampleSize])"

text \<open>
  The loop over the sample indices. An index outside the receipts would read
  \<^verbatim>\<open>receipt.hash\<close> of undefined, in the \<^verbatim>\<open>try\<close> and again in the \<^verbatim>\<open>catch\<close>: a \<^verbatim>\<open>TypeError\<close>
  that leaves the function.
\<close>

fun sample_results ::
  "expected \<Rightarrow> chain \<Rightarrow> receipt list \<Rightarrow> nat list \<Rightarrow> analysis_error + sample_result list" where
  "sample_results ex c rs [] = Inr []"
| "sample_results ex c rs (idx # idxs) =
     (if length rs \<le> idx then Inl TypeError
      else case sample_results ex c rs idxs of
             Inl e \<Rightarrow> Inl e
           | Inr results \<Rightarrow> Inr (check_sample ex c (rs ! idx) # results))"

text \<open>
  The full verification under \<^verbatim>\<open>config.verifyAll\<close>. \<open>fully_verified\<close> is the body of the
  worker's loop for one receipt: the transaction and the receipt are fetched by hash, and
  the receipt counts when both are found, the status is 1, the block number is positive and
  sender, recipient and value are the expected ones; a fetch that rejects is caught and the
  receipt does not count. \<^verbatim>\<open>Math.min(config.concurrentRequests, receipts.length)\<close> workers
  claim the receipts with \<^verbatim>\<open>nextIndex++\<close>, as the workers of the broadcaster claim the
  envelopes: with at least one worker every receipt is claimed once, and the counters are
  sums, which do not depend on the order of the replies; with no worker no receipt is
  claimed.
\<close>

definition fully_verified :: "expected \<Rightarrow> chain \<Rightarrow> receipt \<Rightarrow> bool" where
  "fully_verified ex c r =
     (case getTransaction c (hash r) of
        Rejects message \<Rightarrow> False
      | Resolves None \<Rightarrow> False
      | Resolves (Some t) \<Rightarrow>
          (case fetchReceipt c (hash r) of
             Rejects message \<Rightarrow> False
           | Resolves None \<Rightarrow> False
           | Resolves (Some txReceipt) \<Rightarrow>
               status txReceipt = 1
               \<and> \<not> (blockNumber txReceipt = 0 \<or> blockNumber txReceipt \<le> 0)
               \<and> toLowerCase (tx_from t) \<in> set (senderAddresses ex)
               \<and> map_option toLowerCase (tx_to t) = Some (recipient ex)
               \<and> tx_value t = exp_value ex))"

definition fullVerification :: "int \<Rightarrow> expected \<Rightarrow> chain \<Rightarrow> receipt list \<Rightarrow> nat" where
  "fullVerification concurrentRequests ex c rs =
     (let workerCount = min concurrentRequests (int (length rs))
      in if 0 < workerCount then length (filter (fully_verified ex c) rs) else 0)"

definition analyzeBlockTPS_simple ::
  "bool \<Rightarrow> int \<Rightarrow> chain \<Rightarrow> receipt list \<Rightarrow> expected \<Rightarrow> sent list
     \<Rightarrow> analysis_error + analysis option" where
  "analyzeBlockTPS_simple verifyAll concurrentRequests c rs ex txHashesWithMeta =
     (if rs = [] then Inr None
      else
        let blockNumbers = blockNumbers_of rs;
            ourTxHashes = map (\<lambda>r. toLowerCase (hash r)) rs;
            successfulTxHashes = map (\<lambda>r. toLowerCase (hash r)) (filter (\<lambda>r. status r = 1) rs)
        in case fetch_blocks c blockNumbers of
             Inl e \<Rightarrow> Inl e
           | Inr blocks \<Rightarrow>
               (case count_simple ourTxHashes successfulTxHashes blocks of
                  Inl e \<Rightarrow> Inl e
                | Inr (v, s, t) \<Rightarrow>
                    (case sample_results ex c rs (sampleIndices (length rs)) of
                       Inl e \<Rightarrow> Inl e
                     | Inr results \<Rightarrow>
                         let fullVerifiedCount = fullVerification concurrentRequests ex c rs
                         in Inr (Some
                           \<lparr>blockRequests = map (\<lambda>i. (i, False)) blockNumbers,
                            totalBlockTxCount = t,
                            ourTxCount = v,
                            verifiedTxCount = (if verifyAll then fullVerifiedCount else v),
                            verifiedSuccessfulCount =
                              (if verifyAll then fullVerifiedCount else s),
                            revertedTxCount = length (filter (\<lambda>r. status r \<noteq> 1) rs),
                            receiptsCount = length rs,
                            sampleVerified = length (filter sr_ok results),
                            sampleSize = min 10 (length rs),
                            sampleResults = results\<rparr>))))"


text \<open>
  The mixed driver's loop over the fetched blocks: null blocks are skipped, a hash counts
  as ours when \<^verbatim>\<open>txHashToMeta\<close> has it and as verified when \<^verbatim>\<open>receipts.find\<close> also finds its
  receipt. The last component counts the entries of \<^verbatim>\<open>blockStats\<close>.
\<close>

fun count_mixed ::
  "string list \<Rightarrow> receipt list \<Rightarrow> block option list \<Rightarrow> nat \<times> nat \<times> nat \<times> nat \<times> nat \<times> nat" where
  "count_mixed claimed rs [] = (0, 0, 0, 0, 0, 0)"
| "count_mixed claimed rs (None # bs) = count_mixed claimed rs bs"
| "count_mixed claimed rs (Some b # bs) =
     (case count_mixed claimed rs bs of
        (t, ours, v, s, rv, n) \<Rightarrow>
          let mine = filter (\<lambda>h. toLowerCase h \<in> set claimed) (transactions b);
              found = List.map_filter
                        (\<lambda>h. find (\<lambda>r. toLowerCase (hash r) = toLowerCase h) rs) mine
          in (length (transactions b) + t,
              length mine + ours,
              length found + v,
              length (filter (\<lambda>r. status r = 1) found) + s,
              length (filter (\<lambda>r. status r \<noteq> 1) found) + rv,
              Suc n))"

text \<open>
  The mixed driver fetches every block from \<^verbatim>\<open>firstBlock\<close> to \<^verbatim>\<open>lastBlock\<close>, makes no direct
  fetch of sample transactions, and returns \<^verbatim>\<open>Math.min(10, verifiedTxCount)\<close> for both
  sample fields. With no block found, \<^verbatim>\<open>blockStats[0].timestamp\<close> is a \<^verbatim>\<open>TypeError\<close>.
\<close>

definition analyzeBlockTPS_mixed ::
  "chain \<Rightarrow> receipt list \<Rightarrow> sent list \<Rightarrow> analysis_error + analysis option" where
  "analyzeBlockTPS_mixed c rs txHashesWithMeta =
     (if rs = [] then Inr None
      else
        let blockNumbers = blockNumbers_of rs;
            firstBlock = Min (set blockNumbers);
            lastBlock = Max (set blockNumbers)
        in case fetch_blocks c [firstBlock .. lastBlock] of
             Inl e \<Rightarrow> Inl e
           | Inr blocks \<Rightarrow>
               (case count_mixed (map (\<lambda>m. toLowerCase (sent_hash m)) txHashesWithMeta) rs blocks of
                  (t, ours, v, s, rv, n) \<Rightarrow>
                    if n = 0 then Inl TypeError
                    else Inr (Some
                         \<lparr>blockRequests = map (\<lambda>i. (i, False)) [firstBlock .. lastBlock],
                          totalBlockTxCount = t,
                          ourTxCount = ours,
                          verifiedTxCount = v,
                          verifiedSuccessfulCount = s,
                          revertedTxCount = rv,
                          receiptsCount = length rs,
                          sampleVerified = min 10 v,
                          sampleSize = min 10 v,
                          sampleResults = []\<rparr>)))"


text \<open>The blocks that exist at the given numbers, and their transaction hashes.\<close>

definition blocks_at :: "chain \<Rightarrow> int list \<Rightarrow> block list" where
  "blocks_at c ns =
     concat (map (\<lambda>i. case getBlock c i of Resolves (Some b) \<Rightarrow> [b] | _ \<Rightarrow> []) ns)"

definition block_hashes :: "chain \<Rightarrow> int list \<Rightarrow> string list" where
  "block_hashes c ns = concat (map transactions (blocks_at c ns))"

definition present :: "block option list \<Rightarrow> block list" where
  "present bs = concat (map (\<lambda>b. case b of Some x \<Rightarrow> [x] | None \<Rightarrow> []) bs)"

section \<open>Broadcaster\<close>

text \<open>
  \<^verbatim>\<open>fireAndForgetBroadcast\<close> of both drivers. The values read from a reply are JSON values;
  \<open>JUndefined\<close> is what reading an absent field gives, numbers are taken as integers and
  arrays go with the objects. \<open>truthy\<close> is the test of \<^verbatim>\<open>if (x)\<close>, \<^verbatim>\<open>!x\<close> and \<^verbatim>\<open>x || y\<close>.
\<close>

datatype json = JUndefined | JNull | JBool bool | JNumber int | JString string | JObject

fun truthy :: "json \<Rightarrow> bool" where
  "truthy JUndefined = False"
| "truthy JNull = False"
| "truthy (JBool b) = b"
| "truthy (JNumber n) = (n \<noteq> 0)"
| "truthy (JString s) = (s \<noteq> [])"
| "truthy JObject = True"

text \<open>
  What one POST comes to inside the \<^verbatim>\<open>try\<close>: \<^verbatim>\<open>fetch\<close>, \<^verbatim>\<open>response.json()\<close> or the reading of
  the body throws an error with a message, or the body is read and gives \<^verbatim>\<open>result.result\<close>
  and \<^verbatim>\<open>result.error?.message\<close>.
\<close>

datatype reply = Throws string | Body json json

text \<open>An element of \<^verbatim>\<open>signedTxs\<close>, and an element pushed on \<^verbatim>\<open>txHashes\<close>.\<close>

record envelope =
  signedTx :: string
  env_index :: nat
  env_expectedFrom :: string
  env_txType :: "tx_type option"

record accepted =
  acc_hash :: json
  acc_index :: nat
  acc_expectedFrom :: string
  acc_txType :: "tx_type option"

text \<open>
  A worker is suspended at its \<^verbatim>\<open>await\<close> with the index it claimed, or has left its loop.
  The pool state is the variables the workers share. \<open>posted\<close> lists the indices for which
  \<^verbatim>\<open>fetch\<close> was called, in the order of the calls; \<open>pool_txHashes\<close> is the array \<^verbatim>\<open>txHashes\<close>;
  an absent key of \<^verbatim>\<open>errorTypes\<close> is the count 0.
\<close>

datatype worker = Awaiting nat | Finished

record pool =
  nextIndex :: nat
  workers :: "worker list"
  posted :: "nat list"
  successCount :: nat
  errorCount :: nat
  firstError :: json
  pool_txHashes :: "accepted list"
  errorTypes :: "category \<Rightarrow> nat"
  errorExamples :: "category \<Rightarrow> string option"

datatype broadcast_error = NotAFunction

text \<open>\<^verbatim>\<open>x || 'default'\<close>, the bookkeeping of one error, and \<^verbatim>\<open>if (!firstError) firstError = x\<close>.\<close>

definition or_default :: "json \<Rightarrow> string \<Rightarrow> json" where
  "or_default v d = (if truthy v then v else JString d)"

definition count_error :: "category \<Rightarrow> pool \<Rightarrow> pool" where
  "count_error errorType st = st\<lparr>errorTypes := (errorTypes st)(errorType := errorTypes st errorType + 1)\<rparr>"

definition keep_example :: "category \<Rightarrow> string \<Rightarrow> pool \<Rightarrow> pool" where
  "keep_example errorType example st =
     (if errorExamples st errorType = None
      then st\<lparr>errorExamples := (errorExamples st)(errorType \<mapsto> example)\<rparr> else st)"

definition note_first :: "json \<Rightarrow> pool \<Rightarrow> pool" where
  "note_first errorMsg st = (if truthy (firstError st) then st else st\<lparr>firstError := errorMsg\<rparr>)"

definition accept :: "envelope \<Rightarrow> json \<Rightarrow> accepted" where
  "accept e h =
     \<lparr>acc_hash = h, acc_index = env_index e, acc_expectedFrom = env_expectedFrom e,
      acc_txType = env_txType e\<rparr>"

text \<open>
  \<^verbatim>\<open>categorizeError\<close> calls \<^verbatim>\<open>errorMsg.toLowerCase()\<close>: on a truthy value that is not a string
  this throws a \<^verbatim>\<open>TypeError\<close> inside the \<^verbatim>\<open>try\<close>, and the \<^verbatim>\<open>catch\<close> block runs with its message.
\<close>

definition not_a_function :: string where
  "not_a_function = ''errorMsg.toLowerCase is not a function''"

text \<open>The \<^verbatim>\<open>catch\<close> block and the body of the \<^verbatim>\<open>try\<close> in the single-type driver.\<close>

definition caught_simple :: "string \<Rightarrow> pool \<Rightarrow> pool" where
  "caught_simple message st =
     (let errorMsg = (if message = [] then ''unknown error'' else message);
          st1 = note_first (JString errorMsg) st;
          errorType = categorizeError_simple (Some errorMsg);
          st2 = count_error errorType st1;
          st3 = keep_example errorType (take 100 errorMsg) st2
      in st3\<lparr>errorCount := errorCount st3 + 1\<rparr>)"

definition record_simple :: "envelope \<Rightarrow> reply \<Rightarrow> pool \<Rightarrow> pool" where
  "record_simple e r st =
     (case r of
        Throws message \<Rightarrow> caught_simple message st
      | Body result message \<Rightarrow>
          if truthy result
          then st\<lparr>pool_txHashes := pool_txHashes st @ [(accept e result)\<lparr>acc_txType := None\<rparr>],
                  successCount := successCount st + 1\<rparr>
          else
            let errorMsg = or_default message ''unknown error'';
                st1 = note_first errorMsg st
            in case errorMsg of
                 JString s \<Rightarrow>
                   let errorType = categorizeError_simple (Some s);
                       st2 = count_error errorType st1;
                       st3 = keep_example errorType (take 100 s) st2
                   in st3\<lparr>errorCount := errorCount st3 + 1\<rparr>
               | _ \<Rightarrow> caught_simple not_a_function st1)"

text \<open>
  The same in the mixed driver, which increments \<^verbatim>\<open>errorCount\<close> first in both places and
  passes \<^verbatim>\<open>err.message\<close> on as it is.
\<close>

definition caught_mixed :: "string \<Rightarrow> pool \<Rightarrow> pool" where
  "caught_mixed message st =
     (let st1 = st\<lparr>errorCount := errorCount st + 1\<rparr>;
          st2 = count_error (categorizeError (Some message)) st1
      in note_first (JString message) st2)"

definition record_mixed :: "envelope \<Rightarrow> reply \<Rightarrow> pool \<Rightarrow> pool" where
  "record_mixed e r st =
     (case r of
        Throws message \<Rightarrow> caught_mixed message st
      | Body result message \<Rightarrow>
          if truthy result
          then st\<lparr>successCount := successCount st + 1,
                  pool_txHashes := pool_txHashes st @ [accept e result]\<rparr>
          else
            let st1 = st\<lparr>errorCount := errorCount st + 1\<rparr>;
                errorMsg = or_default message ''Unknown error''
            in case errorMsg of
                 JString s \<Rightarrow>
                   let errorType = categorizeError (Some s);
                       st2 = count_error errorType st1;
                       st3 = (if errorExamples st2 errorType = None
                              then st2\<lparr>errorExamples := (errorExamples st2)(errorType \<mapsto> s)\<rparr>
                              else st2)
                   in note_first errorMsg st3
               | _ \<Rightarrow> caught_mixed not_a_function st1)"

datatype driver = SingleType | Mixed

definition record_outcome :: "driver \<Rightarrow> envelope \<Rightarrow> reply \<Rightarrow> pool \<Rightarrow> pool" where
  "record_outcome d = (case d of SingleType \<Rightarrow> record_simple | Mixed \<Rightarrow> record_mixed)"

text \<open>
  The head of the worker's loop, run without interruption: \<^verbatim>\<open>while (nextIndex < signedTxs.length)\<close>,
  \<^verbatim>\<open>const idx = nextIndex++\<close> and the call of \<^verbatim>\<open>fetch\<close>, up to the \<^verbatim>\<open>await\<close>.
\<close>

definition claim_next :: "nat \<Rightarrow> pool \<Rightarrow> worker \<times> pool" where
  "claim_next n st =
     (if nextIndex st < n
      then (Awaiting (nextIndex st),
            st\<lparr>nextIndex := nextIndex st + 1, posted := posted st @ [nextIndex st]\<rparr>)
      else (Finished, st))"

text \<open>
  \<^verbatim>\<open>for (let i = 0; i < config.concurrentRequests; i++) workers.push(worker())\<close>: each call
  runs its worker up to the first \<^verbatim>\<open>await\<close>.
\<close>

definition spawn :: "nat \<Rightarrow> pool \<Rightarrow> pool" where
  "spawn n st = (case claim_next n st of (w, st') \<Rightarrow> st'\<lparr>workers := workers st' @ [w]\<rparr>)"

definition empty_pool :: pool where
  "empty_pool =
     \<lparr>nextIndex = 0, workers = [], posted = [], successCount = 0, errorCount = 0,
      firstError = JNull, pool_txHashes = [], errorTypes = (\<lambda>c. 0), errorExamples = (\<lambda>c. None)\<rparr>"

definition start_workers :: "nat \<Rightarrow> int \<Rightarrow> pool" where
  "start_workers n concurrentRequests = ((spawn n) ^^ nat concurrentRequests) empty_pool"

text \<open>
  The reply to worker \<open>w\<close> arrives: the worker records the outcome of the index it was
  waiting for and goes back to the head of its loop. The reply to the request for index
  \<open>idx\<close> is \<open>endpoint idx\<close>. \<open>run\<close> delivers the replies in the order \<open>arrivals\<close> names the
  workers; no order is fixed by the program.
\<close>

definition deliver ::
  "driver \<Rightarrow> envelope list \<Rightarrow> (nat \<Rightarrow> reply) \<Rightarrow> nat \<Rightarrow> pool \<Rightarrow> pool option" where
  "deliver d signedTxs endpoint w st =
     (if w < length (workers st)
      then case workers st ! w of
             Finished \<Rightarrow> None
           | Awaiting idx \<Rightarrow>
               (case claim_next (length signedTxs)
                       (record_outcome d (signedTxs ! idx) (endpoint idx) st) of
                  (w', st') \<Rightarrow> Some (st'\<lparr>workers := (workers st')[w := w']\<rparr>))
      else None)"

fun run :: "driver \<Rightarrow> envelope list \<Rightarrow> (nat \<Rightarrow> reply) \<Rightarrow> nat list \<Rightarrow> pool \<Rightarrow> pool option" where
  "run d signedTxs endpoint [] st = Some st"
| "run d signedTxs endpoint (w # arrivals) st =
     (case deliver d signedTxs endpoint w st of
        None \<Rightarrow> None
      | Some st' \<Rightarrow> run d signedTxs endpoint arrivals st')"

text \<open>
  \<^verbatim>\<open>await Promise.all(workers)\<close> returns when every worker has left its loop. After it the
  single-type driver prints \<^verbatim>\<open>firstError.slice(0, 120)\<close> when there are errors and
  \<^verbatim>\<open>firstError\<close> is truthy, the mixed driver \<^verbatim>\<open>firstError.substring(0, 100)\<close> when \<^verbatim>\<open>firstError\<close>
  is truthy: a \<^verbatim>\<open>TypeError\<close> on a value that is not a string. The result is \<open>None\<close> when
  \<open>arrivals\<close> is not a complete run: it names a worker with no request in flight, or ends
  with requests in flight.
\<close>

definition settled :: "pool \<Rightarrow> bool" where
  "settled st = list_all (\<lambda>w. w = Finished) (workers st)"

definition is_string :: "json \<Rightarrow> bool" where
  "is_string v = (case v of JString s \<Rightarrow> True | _ \<Rightarrow> False)"

definition prints_first_error :: "driver \<Rightarrow> pool \<Rightarrow> bool" where
  "prints_first_error d st =
     (case d of
        SingleType \<Rightarrow> 0 < errorCount st \<and> truthy (firstError st)
      | Mixed \<Rightarrow> truthy (firstError st))"

definition fireAndForgetBroadcast ::
  "driver \<Rightarrow> envelope list \<Rightarrow> int \<Rightarrow> (nat \<Rightarrow> reply) \<Rightarrow> nat list
     \<Rightarrow> (broadcast_error + pool) option" where
  "fireAndForgetBroadcast d signedTxs concurrentRequests endpoint arrivals =
     (case run d signedTxs endpoint arrivals
             (start_workers (length signedTxs) concurrentRequests) of
        None \<Rightarrow> None
      | Some st \<Rightarrow>
          if \<not> settled st then None
          else if prints_first_error d st \<and> \<not> is_string (firstError st)
          then Some (Inl NotAFunction)
          else Some (Inr st))"

text \<open>A reply as JSON-RPC has it: the message of an error object is a string when present.\<close>

definition conforming :: "reply \<Rightarrow> bool" where
  "conforming r =
     (case r of Throws message \<Rightarrow> True
      | Body result message \<Rightarrow> truthy result \<or> \<not> truthy message \<or> is_string message)"

text \<open>The replies counted as successes, and the entry pushed for one.\<close>

definition accepts :: "reply \<Rightarrow> bool" where
  "accepts r = (case r of Throws message \<Rightarrow> False | Body result message \<Rightarrow> truthy result)"

text \<open>The indices in flight.\<close>

fun awaiting_of :: "worker list \<Rightarrow> nat list" where
  "awaiting_of [] = []"
| "awaiting_of (Awaiting idx # ws) = idx # awaiting_of ws"
| "awaiting_of (Finished # ws) = awaiting_of ws"

definition awaited :: "pool \<Rightarrow> nat list" where
  "awaited st = awaiting_of (workers st)"

definition result_of :: "reply \<Rightarrow> json" where
  "result_of r = (case r of Throws message \<Rightarrow> JUndefined | Body result message \<Rightarrow> result)"

definition entry :: "driver \<Rightarrow> envelope \<Rightarrow> reply \<Rightarrow> accepted" where
  "entry d e r =
     (case d of
        SingleType \<Rightarrow> (accept e (result_of r))\<lparr>acc_txType := None\<rparr>
      | Mixed \<Rightarrow> accept e (result_of r))"

text \<open>
  What holds of the pool after the replies to the indices \<open>finished\<close> have arrived, in that
  order.
\<close>

definition pool_inv ::
  "driver \<Rightarrow> envelope list \<Rightarrow> (nat \<Rightarrow> reply) \<Rightarrow> nat list \<Rightarrow> pool \<Rightarrow> bool" where
  "pool_inv d signedTxs endpoint finished st \<longleftrightarrow>
     nextIndex st \<le> length signedTxs
   \<and> posted st = [0 ..< nextIndex st]
   \<and> mset (awaited st) + mset finished = mset [0 ..< nextIndex st]
   \<and> (Finished \<in> set (workers st) \<longrightarrow> nextIndex st = length signedTxs)
   \<and> successCount st = length (filter (\<lambda>i. accepts (endpoint i)) finished)
   \<and> errorCount st = length (filter (\<lambda>i. \<not> accepts (endpoint i)) finished)
   \<and> pool_txHashes st = map (\<lambda>i. entry d (signedTxs ! i) (endpoint i))
                      (filter (\<lambda>i. accepts (endpoint i)) finished)
   \<and> (\<not> truthy (firstError st) \<or> is_string (firstError st))"

section \<open>The run\<close>

text \<open>
  \<^verbatim>\<open>main\<close> of both drivers, as the branches it takes on the results of the functions it
  awaits. Every call of \<^verbatim>\<open>process.exit(1)\<close> is a \<open>fatal\<close> ending: five are in \<^verbatim>\<open>main\<close> itself,
  and \<open>Uncaught\<close> is the one in \<^verbatim>\<open>main().catch\<close>, reached by any rejection or exception that
  \<^verbatim>\<open>main\<close> does not catch. \<open>Cancelled\<close> is the \<^verbatim>\<open>process.exit(0)\<close> of the interactive
  configuration when the user declines; a run that reaches the end of \<^verbatim>\<open>main\<close> exits with
  code 0.
\<close>

datatype fatal =
    ConnectionFailed | InsufficientFunderBalance | NoSenders | NothingSigned | NothingBroadcast
  | Uncaught

datatype ending = Completed | Cancelled | Fatal fatal

fun exit_code :: "ending \<Rightarrow> nat" where
  "exit_code Completed = 0"
| "exit_code Cancelled = 0"
| "exit_code (Fatal f) = 1"

text \<open>
  The results of the awaited calls, in the order of the calls: the interactive
  configuration of the mixed driver (whether the user confirmed; a run without the
  interactive mode counts as confirmed), \<^verbatim>\<open>getNetwork\<close> and \<^verbatim>\<open>getBlockNumber\<close> inside the
  \<^verbatim>\<open>try\<close>, the funder's balance, the balance the single-type driver requires
  (\<^verbatim>\<open>parseEther\<close> throws on a string it cannot read), the second \<^verbatim>\<open>getNetwork\<close>, the
  contract setup of the mixed driver, the number of senders \<^verbatim>\<open>createAndFundSenders\<close> returns,
  the number of signed transactions, and the results of \<^verbatim>\<open>fireAndForgetBroadcast\<close>,
  \<^verbatim>\<open>waitForConfirmations\<close>, \<^verbatim>\<open>analyzeBlockTPS\<close> and \<^verbatim>\<open>generateReport\<close>.
\<close>

record phases =
  interactive :: "bool rpc"
  connection :: "unit rpc"
  funderBalance :: "int rpc"
  requiredBalance :: "int rpc"
  network :: "unit rpc"
  contractsSetup :: "unit rpc"
  fundedSenders :: "nat rpc"
  signedCount :: "nat rpc"
  sendResult :: "broadcast_error + pool"
  confirmResult :: confirm_result
  tpsAnalysis :: "analysis_error + analysis option"
  report :: "unit rpc"

text \<open>An awaited call that rejects, or a call that throws, ends the run in \<^verbatim>\<open>main().catch\<close>.\<close>

definition awaiting :: "'a rpc \<Rightarrow> ('a \<Rightarrow> ending) \<Rightarrow> ending" where
  "awaiting p k = (case p of Rejects message \<Rightarrow> Fatal Uncaught | Resolves x \<Rightarrow> k x)"

definition returned :: "'e + 'a \<Rightarrow> ('a \<Rightarrow> ending) \<Rightarrow> ending" where
  "returned p k = (case p of Inl e \<Rightarrow> Fatal Uncaught | Inr x \<Rightarrow> k x)"

text \<open>
  From the broadcast on, the same in both drivers: \<^verbatim>\<open>sendResult.txHashes.length === 0\<close> is
  fatal; the result of \<^verbatim>\<open>waitForConfirmations\<close> is passed on without a test; \<^verbatim>\<open>generateReport\<close>
  takes a null analysis.
\<close>

definition broadcast_onwards :: "phases \<Rightarrow> ending" where
  "broadcast_onwards r =
     returned (sendResult r) (\<lambda>st.
       if pool_txHashes st = [] then Fatal NothingBroadcast
       else returned (tpsAnalysis r) (\<lambda>a. awaiting (report r) (\<lambda>u. Completed)))"

text \<open>\<^verbatim>\<open>senders.length === 0\<close> and \<^verbatim>\<open>signedTxs.length === 0\<close> are fatal.\<close>

definition senders_onwards :: "phases \<Rightarrow> ending" where
  "senders_onwards r =
     awaiting (fundedSenders r) (\<lambda>senders.
       if senders = 0 then Fatal NoSenders
       else awaiting (signedCount r) (\<lambda>signedTxs.
         if signedTxs = 0 then Fatal NothingSigned else broadcast_onwards r))"

text \<open>The \<^verbatim>\<open>try\<close> around the first two calls: its \<^verbatim>\<open>catch\<close> exits.\<close>

definition connect :: "phases \<Rightarrow> (unit \<Rightarrow> ending) \<Rightarrow> ending" where
  "connect r k =
     (case connection r of Rejects message \<Rightarrow> Fatal ConnectionFailed | Resolves u \<Rightarrow> k u)"

text \<open>The single-type driver compares the funder's balance with what the senders need.\<close>

definition main_simple :: "phases \<Rightarrow> ending" where
  "main_simple r =
     connect r (\<lambda>u.
       awaiting (funderBalance r) (\<lambda>balance.
         awaiting (requiredBalance r) (\<lambda>required.
           if balance < required then Fatal InsufficientFunderBalance
           else awaiting (network r) (\<lambda>u. senders_onwards r))))"

text \<open>The mixed driver has no balance test; it sets up the contracts before the senders.\<close>

definition main_mixed :: "phases \<Rightarrow> ending" where
  "main_mixed r =
     awaiting (interactive r) (\<lambda>start.
       if \<not> start then Cancelled
       else connect r (\<lambda>u.
         awaiting (funderBalance r) (\<lambda>balance.
           awaiting (network r) (\<lambda>u.
             awaiting (contractsSetup r) (\<lambda>u. senders_onwards r)))))"

definition main :: "driver \<Rightarrow> phases \<Rightarrow> ending" where
  "main d = (case d of SingleType \<Rightarrow> main_simple | Mixed \<Rightarrow> main_mixed)"

text \<open>
  \<^verbatim>\<open>getRequiredContracts\<close> and \<^verbatim>\<open>setupContracts\<close> of the mixed driver, which give
  \<^verbatim>\<open>generatePayload\<close> its contract addresses. The deployments are calls into other modules:
  \<open>deployToken\<close> is the contract address \<^verbatim>\<open>deployToken\<close> resolves to, \<open>deployUniswap\<close> the WETH
  and router addresses of \<^verbatim>\<open>deployUniswap\<close>, and \<open>createPool\<close> the approval and the liquidity
  calls that follow it.
\<close>

record deployments =
  deployToken :: "string option rpc"
  deployUniswap :: "(string option \<times> string option) rpc"
  createPool :: "unit rpc"

definition getRequiredContracts :: "tx_mix \<Rightarrow> bool \<times> bool" where
  "getRequiredContracts m = (tokenTransfer m > 0 \<or> swap m > 0, swap m > 0)"

definition setupContracts :: "tx_mix \<Rightarrow> contracts \<Rightarrow> deployments \<Rightarrow> contracts rpc" where
  "setupContracts m configured dep =
     (case getRequiredContracts m of
        (needsToken, needsUniswap) \<Rightarrow>
          if \<not> needsToken \<and> \<not> needsUniswap then Resolves configured
          else if \<not> falsy (token configured)
                  \<and> (\<not> needsUniswap
                       \<or> (\<not> falsy (weth configured) \<and> \<not> falsy (router configured)))
            then Resolves configured
          else
            case (if needsToken \<and> falsy (token configured)
                  then (case deployToken dep of
                          Rejects message \<Rightarrow> Rejects message
                        | Resolves a \<Rightarrow> Resolves (configured\<lparr>token := a\<rparr>))
                  else Resolves configured) of
              Rejects message \<Rightarrow> Rejects message
            | Resolves withToken \<Rightarrow>
                if needsUniswap \<and> falsy (router withToken)
                then (case deployUniswap dep of
                        Rejects message \<Rightarrow> Rejects message
                      | Resolves (w, r) \<Rightarrow>
                          (case createPool dep of
                             Rejects message \<Rightarrow> Rejects message
                           | Resolves u \<Rightarrow> Resolves (withToken\<lparr>weth := w, router := r\<rparr>)))
                else Resolves withToken)"

section \<open>Example inputs\<close>

text \<open>
  Two senders, and an encoder that takes an address written as \<open>0x\<close> and forty lower-case
  hexadecimal digits and a number that fits 256 bits. The library takes all of these.
\<close>

definition alice :: wallet where
  "alice = \<lparr>address = ''0xa11ce00000000000000000000000000000000001'', getNonce = Some 7\<rparr>"

definition bob :: wallet where
  "bob = \<lparr>address = ''0xb0b0000000000000000000000000000000000002'', getNonce = Some 0\<rparr>"

definition hex_address :: "string \<Rightarrow> bool" where
  "hex_address s \<longleftrightarrow>
     length s = 42 \<and> take 2 s = ''0x''
     \<and> list_all (\<lambda>c. c \<in> set ''0123456789abcdef'') (drop 2 s)"

definition example_encodes :: "call_data \<Rightarrow> bool" where
  "example_encodes c =
     (case c of
        Transfer_call dest amount \<Rightarrow> hex_address dest \<and> amount < 2 ^ 256
      | SwapExactETHForTokens_call amountOutMin path dest deadline \<Rightarrow>
          amountOutMin < 2 ^ 256
          \<and> list_all (\<lambda>a. case a of None \<Rightarrow> False | Some s \<Rightarrow> hex_address s) path
          \<and> hex_address dest \<and> 0 \<le> deadline \<and> deadline < 2 ^ 256)"

definition example_runtime :: runtime where
  "example_runtime =
     \<lparr>feeParams = Some \<lparr>maxFeePerGas = 200, maxPriorityFeePerGas = 0\<rparr>,
      ethRecipient = ''0xe700000000000000000000000000000000000003'',
      tokenRecipient = ''0x7000000000000000000000000000000000000004'',
      now_seconds = (\<lambda>i. 1700000000), encodes = example_encodes\<rparr>"

definition all_contracts :: contracts where
  "all_contracts =
     \<lparr>token = Some ''0x70ce000000000000000000000000000000000005'',
      router = Some ''0xc0de000000000000000000000000000000000006'',
      weth = Some ''0xe100000000000000000000000000000000000007''\<rparr>"

definition no_contracts :: contracts where
  "no_contracts = \<lparr>token = None, router = None, weth = None\<rparr>"

definition token_only :: contracts where
  "token_only =
     \<lparr>token = Some ''0x70ce000000000000000000000000000000000005'', router = None, weth = None\<rparr>"

text \<open>A deployment of the token that succeeds.\<close>

definition example_deployments :: deployments where
  "example_deployments =
     \<lparr>deployToken = Resolves (token all_contracts),
      deployUniswap = Resolves (weth all_contracts, router all_contracts),
      createPool = Resolves ()\<rparr>"

definition example_options :: "int \<Rightarrow> tx_mix \<Rightarrow> contracts \<Rightarrow> options" where
  "example_options n mix cs =
     \<lparr>senders = [alice, bob], provider = example_runtime, opt_chainId = 412,
      config = \<lparr>txCount = n, txMix = Some mix, cfg_gasLimit = None, ethValue = 10,
                 tokenAmount = 100, swapEthAmount = 1000\<rparr>,
      opt_contracts = cs\<rparr>"

definition eth_only :: tx_mix where
  "eth_only = \<lparr>ethTransfer = 100, tokenTransfer = 0, swap = 0\<rparr>"

definition mix_67_33_0 :: tx_mix where
  "mix_67_33_0 = \<lparr>ethTransfer = 67, tokenTransfer = 33, swap = 0\<rparr>"

definition mix_1_100_0 :: tx_mix where
  "mix_1_100_0 = \<lparr>ethTransfer = 1, tokenTransfer = 100, swap = 0\<rparr>"

definition mix_99_1_0 :: tx_mix where
  "mix_99_1_0 = \<lparr>ethTransfer = 99, tokenTransfer = 1, swap = 0\<rparr>"

definition example_simple_config :: simple_config where
  "example_simple_config = \<lparr>sc_txCount = 5, sc_gasLimit = 21000, sc_txValue = 10\<rparr>"

text \<open>
  A chain with three blocks. The sent transaction \<open>0xaa\<close> is in block 5 and goes to an
  address other than the expected recipient; \<open>0xbb\<close> is in block 7; block 6 holds a
  transaction of somebody else.
\<close>

definition example_chain :: chain where
  "example_chain =
     \<lparr>getBlock = (\<lambda>i.
        if i = 5 then Resolves (Some \<lparr>number = 5, timestamp = 100, transactions = [''0xAA'']\<rparr>)
        else if i = 6 then Resolves (Some \<lparr>number = 6, timestamp = 101, transactions = [''0xcc'']\<rparr>)
        else if i = 7 then Resolves (Some \<lparr>number = 7, timestamp = 102, transactions = [''0xbb'']\<rparr>)
        else Resolves None),
      getTransaction = (\<lambda>h.
        if h = ''0xaa'' then Resolves (Some \<lparr>tx_from = ''0xA1'', tx_to = Some ''0xBAD'', tx_value = 10\<rparr>)
        else if h = ''0xbb'' then Resolves (Some \<lparr>tx_from = ''0xB0'', tx_to = Some ''0xE7'', tx_value = 10\<rparr>)
        else Resolves None),
      fetchReceipt = (\<lambda>h.
        Resolves (Some \<lparr>hash = h, blockNumber = (if h = ''0xaa'' then 5 else 7), status = 1\<rparr>))\<rparr>"

definition example_receipts :: "receipt list" where
  "example_receipts =
     [\<lparr>hash = ''0xaa'', blockNumber = 5, status = 1\<rparr>,
      \<lparr>hash = ''0xbb'', blockNumber = 7, status = 1\<rparr>]"

definition example_expected :: expected where
  "example_expected = \<lparr>recipient = ''0xe7'', exp_value = 10, senderAddresses = [''0xa1'', ''0xb0'']\<rparr>"

definition example_sent :: "sent list" where
  "example_sent =
     [\<lparr>sent_hash = ''0xaa'', sent_index = 0, expectedFrom = ''0xa1'', sent_txType = None\<rparr>,
      \<lparr>sent_hash = ''0xbb'', sent_index = 1, expectedFrom = ''0xb0'', sent_txType = None\<rparr>]"

text \<open>Three envelopes; the endpoint accepts the first, refuses the second and the request
  for the third fails.\<close>

definition example_envelopes :: "envelope list" where
  "example_envelopes =
     [\<lparr>signedTx = ''0x02f8a0'', env_index = 0, env_expectedFrom = ''0xa1'',
        env_txType = Some ETH_TRANSFER\<rparr>,
      \<lparr>signedTx = ''0x02f8a1'', env_index = 1, env_expectedFrom = ''0xb0'',
        env_txType = Some TOKEN_TRANSFER\<rparr>,
      \<lparr>signedTx = ''0x02f8a2'', env_index = 2, env_expectedFrom = ''0xa1'',
        env_txType = Some ETH_TRANSFER\<rparr>]"

definition example_endpoint :: "nat \<Rightarrow> reply" where
  "example_endpoint i =
     (if i = 0 then Body (JString ''0xaa'') JUndefined
      else if i = 1 then Body JUndefined (JString ''nonce too low'')
      else Throws ''timeout'')"

definition outcome_summary :: "(broadcast_error + pool) option \<Rightarrow> (nat \<times> nat \<times> json list \<times> nat list) option" where
  "outcome_summary res =
     (case res of
        Some (Inr st) \<Rightarrow> Some (successCount st, errorCount st, map acc_hash (pool_txHashes st), posted st)
      | _ \<Rightarrow> None)"

text \<open>
  A run of the mixed driver in which two of three broadcasts fail and no receipt arrives
  before the timeout; the same run with every broadcast failing; the same run with a funder
  balance below the requirement.
\<close>

definition example_run :: phases where
  "example_run =
     \<lparr>interactive = Resolves True, connection = Resolves (), funderBalance = Resolves 1000,
      requiredBalance = Resolves 200, network = Resolves (), contractsSetup = Resolves (),
      fundedSenders = Resolves 2, signedCount = Resolves 3,
      sendResult = the (fireAndForgetBroadcast Mixed example_envelopes 2 example_endpoint [1, 0, 1]),
      confirmResult = waitForConfirmations_mixed silent_endpoint [''0xaa''] 60000,
      tpsAnalysis = analyzeBlockTPS_mixed example_chain
        (receipts (waitForConfirmations_mixed silent_endpoint [''0xaa''] 60000)) example_sent,
      report = Resolves ()\<rparr>"

definition failing_endpoint :: "nat \<Rightarrow> reply" where
  "failing_endpoint i = (if i = 1 then Body JUndefined (JString ''nonce too low'') else Throws ''timeout'')"

definition refused_run :: phases where
  "refused_run =
     example_run\<lparr>sendResult :=
       the (fireAndForgetBroadcast Mixed example_envelopes 2 failing_endpoint [0, 1, 0])\<rparr>"

definition poor_run :: phases where
  "poor_run = example_run\<lparr>funderBalance := Resolves 199\<rparr>"

text \<open>Every substring the chain tests, in the order of the tests.\<close>

definition tested_substrings_simple :: "string list" where
  "tested_substrings_simple =
     [''max fee per gas less than block base fee'', ''nonce too low'', ''nonce too high'',
      ''already known'', ''replacement transaction underpriced'', ''insufficient funds'',
      ''intrinsic gas too low'', ''timeout'', ''ETIMEDOUT'', ''connection'', ''ECONNREFUSED'']"

definition tested_substrings_mixed :: "string list" where
  "tested_substrings_mixed = tested_substrings_simple @ [''execution reverted'']"

section \<open>Facts about strings\<close>

lemma str_includes_iff: "str_includes s n \<longleftrightarrow> (\<exists>p q. s = p @ n @ q)"
proof (induction s)
  case Nil
  then show ?case by auto
next
  case (Cons c cs)
  have pre: "take (length n) (c # cs) = n \<longleftrightarrow> (\<exists>q. c # cs = n @ q)"
    by (metis append_eq_conv_conj append_take_drop_id)
  show ?case
  proof
    assume "str_includes (c # cs) n"
    then consider "take (length n) (c # cs) = n" | "str_includes cs n" by auto
    then show "\<exists>p q. c # cs = p @ n @ q"
    proof cases
      case 1
      then obtain q where "c # cs = n @ q" using pre by blast
      then have "c # cs = [] @ n @ q" by simp
      then show ?thesis by blast
    next
      case 2
      then obtain p q where "cs = p @ n @ q" using Cons.IH by blast
      then have "c # cs = (c # p) @ n @ q" by simp
      then show ?thesis by blast
    qed
  next
    assume "\<exists>p q. c # cs = p @ n @ q"
    then obtain p q where pq: "c # cs = p @ n @ q" by blast
    show "str_includes (c # cs) n"
    proof (cases p)
      case Nil
      then have "c # cs = n @ q" using pq by simp
      then have "take (length n) (c # cs) = n" using pre by blast
      then show ?thesis by simp
    next
      case (Cons a p')
      then have "cs = p' @ n @ q" using pq by simp
      then show ?thesis using Cons.IH by auto
    qed
  qed
qed

lemma str_includes_set: "str_includes s n \<Longrightarrow> set n \<subseteq> set s"
  by (auto simp: str_includes_iff)

lemma lower_char_not_upper:
  "\<not> (65 \<le> (of_char (lower_char c) :: nat) \<and> (of_char (lower_char c) :: nat) \<le> 90)"
  by (auto simp: lower_char_def Let_def)

lemma toLowerCase_no_E: "CHR ''E'' \<notin> set (toLowerCase s)"
proof
  assume "CHR ''E'' \<in> set (toLowerCase s)"
  then obtain c where "lower_char c = CHR ''E''"
    by (auto simp: toLowerCase_def)
  then have "(of_char (lower_char c) :: nat) = 69" by simp
  then show False using lower_char_not_upper [of c] by simp
qed

text \<open>The two upper-case tests are made on lower-cased text and never succeed.\<close>

lemma upper_case_needles_dead:
  "\<not> str_includes (toLowerCase s) ''ETIMEDOUT''"
  "\<not> str_includes (toLowerCase s) ''ECONNREFUSED''"
  using str_includes_set [of "toLowerCase s" "''ETIMEDOUT''"]
    str_includes_set [of "toLowerCase s" "''ECONNREFUSED''"] toLowerCase_no_E [of s]
  by auto

lemma categorizeError_table:
  "s \<noteq> [] \<Longrightarrow> categorizeError (Some s) = first_match rules_mixed (toLowerCase s)"
  by (simp add: categorizeError_def rules_mixed_def rules_simple_def Let_def
      upper_case_needles_dead)

lemma categorizeError_simple_table:
  "s \<noteq> [] \<Longrightarrow> categorizeError_simple (Some s) = first_match rules_simple (toLowerCase s)"
  by (simp add: categorizeError_simple_def rules_simple_def Let_def upper_case_needles_dead)

lemma first_match_none:
  "\<forall>(n, c) \<in> set rules. \<not> str_includes msg n \<Longrightarrow> first_match rules msg = other"
  by (induction rules) auto

lemma first_match_other:
  "first_match rules msg = other \<Longrightarrow> \<forall>(n, c) \<in> set rules. c \<noteq> other
    \<Longrightarrow> \<forall>(n, c) \<in> set rules. \<not> str_includes msg n"
  by (induction rules) (auto split: if_splits)

lemma rules_mixed_documented: "\<forall>(n, c) \<in> set rules_mixed. categorizeError (Some n) = c"
  by code_simp

lemma rules_simple_documented:
  "\<forall>(n, c) \<in> set rules_simple. categorizeError_simple (Some n) = c"
  by code_simp

lemma no_rule_mixed_iff:
  "(\<forall>(n, c) \<in> set rules_mixed. \<not> str_includes (toLowerCase s) n)
    \<longleftrightarrow> (\<forall>n \<in> set tested_substrings_mixed. \<not> str_includes (toLowerCase s) n)"
  by (simp add: rules_mixed_def rules_simple_def tested_substrings_mixed_def
      tested_substrings_simple_def upper_case_needles_dead)

lemma no_rule_simple_iff:
  "(\<forall>(n, c) \<in> set rules_simple. \<not> str_includes (toLowerCase s) n)
    \<longleftrightarrow> (\<forall>n \<in> set tested_substrings_simple. \<not> str_includes (toLowerCase s) n)"
  by (simp add: rules_simple_def tested_substrings_simple_def upper_case_needles_dead)

lemma rules_mixed_not_other: "\<forall>(n, c) \<in> set rules_mixed. c \<noteq> other"
  by (simp add: rules_mixed_def rules_simple_def)

lemma rules_simple_not_other: "\<forall>(n, c) \<in> set rules_simple. c \<noteq> other"
  by (simp add: rules_simple_def)

section \<open>The classifier's priority order\<close>

text \<open>
  C2 (as amended). For every non-empty message, both classifiers lower-case the message and
  return the category of the first substring that occurs in it, in the order
  gas-price-too-low, nonce-too-low, nonce-too-high, already-known, replacement-underpriced,
  insufficient-funds, gas-limit-too-low, timeout, connection-error and, in the mixed-payload
  driver only, execution-reverted last. Each of these lower-case substrings, taken as the
  whole message, maps to its category, and a message in which none of them occurs maps to
  \<open>other\<close>.
\<close>

theorem categorizeError_priority_order:
  assumes "s \<noteq> []"
  shows "categorizeError (Some s) = first_match rules_mixed (toLowerCase s)
    \<and> categorizeError_simple (Some s) = first_match rules_simple (toLowerCase s)
    \<and> (\<forall>(n, c) \<in> set rules_mixed. categorizeError (Some n) = c)
    \<and> (\<forall>(n, c) \<in> set rules_simple. categorizeError_simple (Some n) = c)
    \<and> ((\<forall>(n, c) \<in> set rules_mixed. \<not> str_includes (toLowerCase s) n)
          \<longrightarrow> categorizeError (Some s) = other)
    \<and> ((\<forall>(n, c) \<in> set rules_simple. \<not> str_includes (toLowerCase s) n)
          \<longrightarrow> categorizeError_simple (Some s) = other)"
proof -
  have m: "categorizeError (Some s) = first_match rules_mixed (toLowerCase s)"
    using assms by (rule categorizeError_table)
  have p: "categorizeError_simple (Some s) = first_match rules_simple (toLowerCase s)"
    using assms by (rule categorizeError_simple_table)
  have om: "(\<forall>(n, c) \<in> set rules_mixed. \<not> str_includes (toLowerCase s) n)
      \<longrightarrow> categorizeError (Some s) = other"
    using m first_match_none [of rules_mixed "toLowerCase s"] by simp
  have op: "(\<forall>(n, c) \<in> set rules_simple. \<not> str_includes (toLowerCase s) n)
      \<longrightarrow> categorizeError_simple (Some s) = other"
    using p first_match_none [of rules_simple "toLowerCase s"] by simp
  show ?thesis
    using m p om op rules_mixed_documented rules_simple_documented by blast
qed

theorem categorizeError_priority_order_witness:
  "''Nonce Too Low: next nonce 7, tx nonce 3'' \<noteq> []
    \<and> categorizeError (Some ''Nonce Too Low: next nonce 7, tx nonce 3'') = nonce_too_low
    \<and> categorizeError_simple (Some ''Nonce Too Low: next nonce 7, tx nonce 3'') = nonce_too_low"
proof -
  have ne: "''Nonce Too Low: next nonce 7, tx nonce 3'' \<noteq> []" by simp
  have a: "first_match rules_mixed (toLowerCase ''Nonce Too Low: next nonce 7, tx nonce 3'')
      = nonce_too_low"
    by code_simp
  have b: "first_match rules_simple (toLowerCase ''Nonce Too Low: next nonce 7, tx nonce 3'')
      = nonce_too_low"
    by code_simp
  show ?thesis
    using categorizeError_priority_order [OF ne] a b by simp
qed

text \<open>
  The order the claim states puts execution-reverted before timeout and connection-error.
  A message that carries both \<open>execution reverted\<close> and \<open>timeout\<close> is classified
  \<open>timeout\<close> by the code, and \<open>execution_reverted\<close> by the stated order.
\<close>

theorem categorizeError_stated_order_counterexample:
  "categorizeError (Some ''execution reverted: swap deadline timeout'') = timeout
    \<and> first_match rules_as_specified (toLowerCase ''execution reverted: swap deadline timeout'')
        = execution_reverted"
  by code_simp

text \<open>The upper-case substrings are tested on lower-cased text: a message that carries
  one of them and no lower-case substring falls through to \<open>other\<close>.\<close>

lemma upper_case_messages_other:
  "categorizeError (Some ''connect ETIMEDOUT 10.0.0.1:8547'') = other
    \<and> categorizeError (Some ''connect ECONNREFUSED 127.0.0.1:8547'') = other
    \<and> categorizeError_simple (Some ''connect ETIMEDOUT 10.0.0.1:8547'') = other
    \<and> categorizeError_simple (Some ''connect ECONNREFUSED 127.0.0.1:8547'') = other"
  by code_simp

section \<open>Unknown and other\<close>

text \<open>
  C10. The classifier returns \<open>unknown\<close>, a category distinct from \<open>other\<close>, when the
  message is absent or empty; it returns \<open>other\<close> exactly for a non-empty message in whose
  lower-cased text none of the tested substrings occurs. This holds for both drivers.
\<close>

theorem categorizeError_unknown_other:
  "categorizeError None = unknown \<and> categorizeError (Some []) = unknown
    \<and> categorizeError_simple None = unknown \<and> categorizeError_simple (Some []) = unknown
    \<and> unknown \<noteq> other
    \<and> (categorizeError m = other \<longleftrightarrow>
          (\<exists>s. m = Some s \<and> s \<noteq> []
             \<and> (\<forall>n \<in> set tested_substrings_mixed. \<not> str_includes (toLowerCase s) n)))
    \<and> (categorizeError_simple m = other \<longleftrightarrow>
          (\<exists>s. m = Some s \<and> s \<noteq> []
             \<and> (\<forall>n \<in> set tested_substrings_simple. \<not> str_includes (toLowerCase s) n)))"
proof -
  have u: "categorizeError None = unknown" "categorizeError (Some []) = unknown"
    "categorizeError_simple None = unknown" "categorizeError_simple (Some []) = unknown"
    by (simp_all add: categorizeError_def categorizeError_simple_def)
  have mixed: "categorizeError m = other \<longleftrightarrow>
      (\<exists>s. m = Some s \<and> s \<noteq> []
         \<and> (\<forall>n \<in> set tested_substrings_mixed. \<not> str_includes (toLowerCase s) n))"
  proof (cases m)
    case None
    then show ?thesis using u by simp
  next
    case (Some s)
    show ?thesis
    proof (cases "s = []")
      case True
      then show ?thesis using Some u by simp
    next
      case False
      have "first_match rules_mixed (toLowerCase s) = other \<longleftrightarrow>
          (\<forall>(n, c) \<in> set rules_mixed. \<not> str_includes (toLowerCase s) n)"
        using first_match_none [of rules_mixed "toLowerCase s"]
          first_match_other [OF _ rules_mixed_not_other, of "toLowerCase s"] by blast
      then show ?thesis
        using Some False categorizeError_table [OF False] no_rule_mixed_iff [of s] by simp
    qed
  qed
  have simple: "categorizeError_simple m = other \<longleftrightarrow>
      (\<exists>s. m = Some s \<and> s \<noteq> []
         \<and> (\<forall>n \<in> set tested_substrings_simple. \<not> str_includes (toLowerCase s) n))"
  proof (cases m)
    case None
    then show ?thesis using u by simp
  next
    case (Some s)
    show ?thesis
    proof (cases "s = []")
      case True
      then show ?thesis using Some u by simp
    next
      case False
      have "first_match rules_simple (toLowerCase s) = other \<longleftrightarrow>
          (\<forall>(n, c) \<in> set rules_simple. \<not> str_includes (toLowerCase s) n)"
        using first_match_none [of rules_simple "toLowerCase s"]
          first_match_other [OF _ rules_simple_not_other, of "toLowerCase s"] by blast
      then show ?thesis
        using Some False categorizeError_simple_table [OF False] no_rule_simple_iff [of s]
        by simp
    qed
  qed
  show ?thesis using u mixed simple by simp
qed

theorem categorizeError_unknown_other_witness:
  "categorizeError (Some ''fetch failed'') = other
    \<and> categorizeError_simple (Some ''fetch failed'') = other
    \<and> categorizeError None = unknown \<and> categorizeError (Some []) = unknown"
proof -
  have a: "\<exists>s. Some ''fetch failed'' = Some s \<and> s \<noteq> []
      \<and> (\<forall>n \<in> set tested_substrings_mixed. \<not> str_includes (toLowerCase s) n)"
    by (rule exI [of _ "''fetch failed''"]) code_simp
  have b: "\<exists>s. Some ''fetch failed'' = Some s \<and> s \<noteq> []
      \<and> (\<forall>n \<in> set tested_substrings_simple. \<not> str_includes (toLowerCase s) n)"
    by (rule exI [of _ "''fetch failed''"]) code_simp
  show ?thesis
    using categorizeError_unknown_other [of "Some ''fetch failed''"] a b by blast
qed

section \<open>Facts about the payload generator\<close>

lemma interleave_count:
  "length (filter (\<lambda>x. x = ty) (interleave e t s))
     = (case ty of ETH_TRANSFER \<Rightarrow> nat e | TOKEN_TRANSFER \<Rightarrow> nat t | SWAP \<Rightarrow> nat s)"
proof (induction e t s rule: interleave.induct)
  case (1 e t s)
  show ?case
  proof (cases "e > 0 \<or> t > 0 \<or> s > 0")
    case True
    from 1 [OF True] show ?thesis
      by (subst interleave.simps) (cases ty; auto simp: nat_diff_distrib Suc_nat_eq_nat_zadd1)
  next
    case False
    then show ?thesis by (subst interleave.simps) (cases ty; auto)
  qed
qed

lemma fold_nonces_other:
  "a \<notin> address ` fst ` set xs \<Longrightarrow> fold set_entry xs m a = m a"
  by (induction xs arbitrary: m) auto

lemma fold_nonces_hit:
  "distinct (map (\<lambda>x. address (fst x)) xs) \<Longrightarrow> (s, n) \<in> set xs \<Longrightarrow>
     fold set_entry xs m (address s) = Some n"
proof (induction xs arbitrary: m)
  case Nil
  then show ?case by simp
next
  case (Cons x xs)
  show ?case
  proof (cases "x = (s, n)")
    case True
    then have notin: "address s \<notin> address ` fst ` set xs"
      using Cons.prems(1) by (auto simp: image_iff)
    have "fold set_entry (x # xs) m (address s)
        = fold set_entry xs (m(address s \<mapsto> n)) (address s)"
      using True by simp
    also have "\<dots> = (m(address s \<mapsto> n)) (address s)"
      using notin by (rule fold_nonces_other)
    finally show ?thesis by simp
  next
    case False
    then have "(s, n) \<in> set xs" using Cons.prems(2) by simp
    moreover have "distinct (map (\<lambda>x. address (fst x)) xs)" using Cons.prems(1) by simp
    ultimately have "fold set_entry xs (set_entry x m) (address s) = Some n"
      by (rule Cons.IH [rotated])
    then show ?thesis by simp
  qed
qed

lemma upt_cons_shift: "n # [n + 1 ..< n + 1 + c] = [n ..< n + (c + 1)]"
  by (simp add: upt_conv_Cons del: upt_Suc)

lemma make_tx_nonce: "make_tx opts g ty s k i = Inr t \<Longrightarrow> nonce t = k"
  by (cases ty)
    (auto simp: make_tx_def generateEthTransferTx_def generateTokenTransferTx_def
      generateSwapTx_def Let_def split: if_splits)

lemma build_unsigned_nonces:
  "build_unsigned opts g i m tys = Inr ds \<Longrightarrow> m a = Some n \<Longrightarrow>
     map (\<lambda>d. nonce (tx d)) (filter (\<lambda>d. address (sender d) = a) ds)
       = [n ..< n + length (filter (\<lambda>d. address (sender d) = a) ds)]"
proof (induction tys arbitrary: i m ds n)
  case Nil
  then show ?case by simp
next
  case (Cons ty tys)
  from Cons.prems(1) have ne: "senders opts \<noteq> []" by (auto split: if_splits)
  define s where "s = senders opts ! (i mod length (senders opts))"
  from Cons.prems(1) ne obtain k t rest where
    k: "m (address s) = Some k" and
    t: "make_tx opts g ty s k i = Inr t" and
    rest: "build_unsigned opts g (i + 1) (m(address s \<mapsto> k + 1)) tys = Inr rest" and
    ds: "ds = \<lparr>sender = s, tx = t, index = i, txType = ty\<rparr> # rest"
    by (auto simp: s_def Let_def split: option.splits sum.splits)
  have nk: "nonce t = k"
    using t by (rule make_tx_nonce)
  let ?f = "filter (\<lambda>d. address (sender d) = a)"
  show ?case
  proof (cases "address s = a")
    case True
    then have kn: "k = n" using k Cons.prems(2) by simp
    have "(m(address s \<mapsto> k + 1)) a = Some (n + 1)" using True kn by simp
    from Cons.IH [OF rest this]
    have ih: "map (\<lambda>d. nonce (tx d)) (?f rest) = [n + 1 ..< n + 1 + length (?f rest)]" .
    have "map (\<lambda>d. nonce (tx d)) (?f ds) = n # map (\<lambda>d. nonce (tx d)) (?f rest)"
      using True ds nk kn by simp
    also have "\<dots> = [n ..< n + (length (?f rest) + 1)]"
      unfolding ih by (rule upt_cons_shift)
    also have "length (?f rest) + 1 = length (?f ds)" using True ds by simp
    finally show ?thesis .
  next
    case False
    then have "(m(address s \<mapsto> k + 1)) a = Some n" using Cons.prems(2) by simp
    from Cons.IH [OF rest this] show ?thesis using False ds by simp
  qed
qed


lemma fetch_nonces_Some:
  "fetch_nonces ss = Some ns \<Longrightarrow>
     length ns = length ss \<and> (\<forall>j < length ss. getNonce (ss ! j) = Some (ns ! j))"
  by (auto simp: fetch_nonces_def list_all_length split: if_splits option.splits)

lemma initSenderNonces_lookup:
  assumes "distinct (map address ss)" "length ns = length ss" "j < length ss"
  shows "initSenderNonces ss ns (address (ss ! j)) = Some (ns ! j)"
proof -
  have "map (\<lambda>x. address (fst x)) (zip ss ns) = map address (map fst (zip ss ns))"
    by simp
  also have "map fst (zip ss ns) = ss" using assms(2) by simp
  finally have d: "distinct (map (\<lambda>x. address (fst x)) (zip ss ns))"
    using assms(1) by simp
  have "(ss ! j, ns ! j) \<in> set (zip ss ns)"
    using assms(2,3) by (auto simp: set_zip)
  with d show ?thesis
    unfolding initSenderNonces_def by (rule fold_nonces_hit)
qed

lemma generatePayload_Inr:
  assumes "generatePayload opts = Inr r"
  obtains ns g where
    "fetch_nonces (senders opts) = Some ns"
    "build_unsigned opts g 0 (initSenderNonces (senders opts) ns)
       (interleave (ethCount r) (tokenCount r) (swapCount r)) = Inr (unsignedTxs r)"
    "ethCount r = calc_ethCount (config opts)"
    "tokenCount r = calc_tokenCount (config opts)"
    "swapCount r = calc_swapCount (config opts)"
    "nonceQueries r = map address (senders opts)"
  using assms unfolding generatePayload_def Let_def
  by (auto split: if_splits option.splits sum.splits)

lemma generatePayload_sender_nonces:
  assumes gen: "generatePayload opts = Inr r"
    and dist: "distinct (map address (senders opts))"
    and mem: "s \<in> set (senders opts)"
  shows "\<exists>n0. getNonce s = Some n0 \<and>
           map (\<lambda>d. nonce (tx d)) (filter (\<lambda>d. address (sender d) = address s) (unsignedTxs r))
             = [n0 ..< n0 + length (filter (\<lambda>d. address (sender d) = address s) (unsignedTxs r))]"
proof -
  from gen obtain ns g where
    ns: "fetch_nonces (senders opts) = Some ns" and
    b: "build_unsigned opts g 0 (initSenderNonces (senders opts) ns)
       (interleave (ethCount r) (tokenCount r) (swapCount r)) = Inr (unsignedTxs r)"
    by (rule generatePayload_Inr)
  from mem obtain j where j: "j < length (senders opts)" "senders opts ! j = s"
    by (auto simp: in_set_conv_nth)
  from fetch_nonces_Some [OF ns] j
  have len: "length ns = length (senders opts)" and gn: "getNonce s = Some (ns ! j)"
    by auto
  have "initSenderNonces (senders opts) ns (address s) = Some (ns ! j)"
    using initSenderNonces_lookup [OF dist len j(1)] j(2) by simp
  from build_unsigned_nonces [OF b this] gn show ?thesis by blast
qed

lemma inner_loop_sender: "d \<in> set (inner_loop s mk k cnt i txIndex n) \<Longrightarrow> sender d = s"
proof (induction s mk k cnt i txIndex n rule: inner_loop.induct)
  case (1 s mk k cnt i txIndex n)
  then show ?case
    by (subst (asm) (2) inner_loop.simps) (auto split: if_splits)
qed

lemma inner_loop_nonces:
  "(\<And>m. nonce (mk m) = m) \<Longrightarrow>
   map (\<lambda>d. nonce (tx d)) (inner_loop s mk k cnt i txIndex n)
     = [n ..< n + length (inner_loop s mk k cnt i txIndex n)]"
proof (induction s mk k cnt i txIndex n rule: inner_loop.induct)
  case (1 s mk k cnt i txIndex n)
  show ?case
  proof (cases "int i < k \<and> int txIndex < cnt")
    case True
    let ?rest = "inner_loop s mk k cnt (i + 1) (txIndex + 1) (n + 1)"
    have eq: "inner_loop s mk k cnt i txIndex n
        = \<lparr>sender = s, tx = mk n, index = txIndex\<rparr> # ?rest"
      using True by (subst inner_loop.simps) simp
    have ih: "map (\<lambda>d. nonce (tx d)) ?rest = [n + 1 ..< n + 1 + length ?rest]"
      by (rule 1(1) [OF True 1(2)])
    have "map (\<lambda>d. nonce (tx d)) (inner_loop s mk k cnt i txIndex n) = n # map (\<lambda>d. nonce (tx d)) ?rest"
      unfolding eq using 1(2) by simp
    also have "\<dots> = [n ..< n + (length ?rest + 1)]"
      unfolding ih by (rule upt_cons_shift)
    also have "length ?rest + 1 = length (inner_loop s mk k cnt i txIndex n)"
      using eq by simp
    finally show ?thesis .
  next
    case False
    then have "inner_loop s mk k cnt i txIndex n = []"
      by (subst inner_loop.simps) simp
    then show ?thesis by simp
  qed
qed

lemma outer_loop_other:
  "a \<notin> address ` fst ` set ps \<Longrightarrow>
     filter (\<lambda>d. address (sender d) = a) (outer_loop mk tps cnt txIndex ps) = []"
proof (induction ps arbitrary: txIndex)
  case Nil
  then show ?case by simp
next
  case (Cons p ps)
  obtain s n where p: "p = (s, n)" by (cases p)
  have "filter (\<lambda>d. address (sender d) = a) (inner_loop s mk k cnt 0 txIndex n) = []" for k
    using Cons.prems p by (auto simp: filter_empty_conv dest: inner_loop_sender)
  then show ?case using Cons p by (auto simp: Let_def)
qed

lemma outer_loop_nonces:
  assumes mk: "\<And>m. nonce (mk m) = m"
  shows "distinct (map (\<lambda>x. address (fst x)) ps) \<Longrightarrow> (s, n0) \<in> set ps \<Longrightarrow>
     map (\<lambda>d. nonce (tx d)) (filter (\<lambda>d. address (sender d) = address s)
        (outer_loop mk tps cnt txIndex ps))
     = [n0 ..< n0 + length (filter (\<lambda>d. address (sender d) = address s)
        (outer_loop mk tps cnt txIndex ps))]"
proof (induction ps arbitrary: txIndex)
  case Nil
  then show ?case by simp
next
  case (Cons p ps)
  obtain s' n' where p: "p = (s', n')" by (cases p)
  let ?F = "filter (\<lambda>d. address (sender d) = address s)"
  show ?case
  proof (cases "int txIndex < cnt")
    case False
    then show ?thesis using p by simp
  next
    case True
    define block where "block = inner_loop s' mk (min tps (cnt - int txIndex)) cnt 0 txIndex n'"
    have ol: "outer_loop mk tps cnt txIndex (p # ps)
        = block @ outer_loop mk tps cnt (txIndex + length block) ps"
      using True p by (simp add: block_def Let_def)
    show ?thesis
    proof (cases "p = (s, n0)")
      case same: True
      then have ss: "s' = s" "n' = n0" using p by auto
      have "address s \<notin> address ` fst ` set ps"
        using Cons.prems(1) same by (auto simp: image_iff)
      then have rest: "?F (outer_loop mk tps cnt (txIndex + length block) ps) = []"
        by (rule outer_loop_other)
      have blk: "?F block = block"
        unfolding block_def ss by (auto simp: filter_id_conv dest: inner_loop_sender)
      have "map (\<lambda>d. nonce (tx d)) block = [n0 ..< n0 + length block]"
        unfolding block_def ss using mk by (rule inner_loop_nonces)
      then show ?thesis unfolding ol by (simp add: rest blk)
    next
      case other: False
      then have mem: "(s, n0) \<in> set ps" using Cons.prems(2) by simp
      have d: "distinct (map (\<lambda>x. address (fst x)) ps)" using Cons.prems(1) by simp
      have "address s \<noteq> address s'"
        using Cons.prems(1) mem p by (auto simp: image_iff)
      then have "?F block = []"
        unfolding block_def by (auto simp: filter_empty_conv dest: inner_loop_sender)
      then show ?thesis using ol Cons.IH [OF d mem] by simp
    qed
  qed
qed

lemma prepareTransactions_simple_sender_nonces:
  assumes gen: "prepareTransactions_simple ss cfg cid prov = Inr ds"
    and dist: "distinct (map address ss)"
    and mem: "s \<in> set ss"
  shows "\<exists>n0. getNonce s = Some n0 \<and>
           map (\<lambda>d. nonce (tx d)) (filter (\<lambda>d. address (sender d) = address s) ds)
             = [n0 ..< n0 + length (filter (\<lambda>d. address (sender d) = address s) ds)]"
proof -
  from mem have ne: "ss \<noteq> []" by auto
  from gen ne obtain ns g where
    ns: "fetch_nonces ss = Some ns" and
    ds: "ds = outer_loop (simple_tx g prov cfg cid)
           (- ((- sc_txCount cfg) div int (length ss))) (sc_txCount cfg) 0 (zip ss ns)"
    unfolding prepareTransactions_simple_def Let_def
    by (auto split: option.splits)
  define mk where "mk = simple_tx g prov cfg cid"
  have mk: "\<And>m. nonce (mk m) = m" by (simp add: mk_def simple_tx_def)
  from mem obtain j where j: "j < length ss" "ss ! j = s"
    by (auto simp: in_set_conv_nth)
  from fetch_nonces_Some [OF ns] j
  have len: "length ns = length ss" and gn: "getNonce s = Some (ns ! j)"
    by auto
  have "map (\<lambda>x. address (fst x)) (zip ss ns) = map address (map fst (zip ss ns))"
    by simp
  also have "map fst (zip ss ns) = ss" using len by simp
  finally have d: "distinct (map (\<lambda>x. address (fst x)) (zip ss ns))"
    using dist by simp
  have m: "(s, ns ! j) \<in> set (zip ss ns)"
    using len j by (auto simp: set_zip)
  show ?thesis
    unfolding ds using outer_loop_nonces [OF mk d m] gn unfolding mk_def by blast
qed


lemma fold_set_entry_dom:
  "a \<in> address ` fst ` set xs \<or> m a \<noteq> None \<Longrightarrow> fold set_entry xs m a \<noteq> None"
proof (induction xs arbitrary: m)
  case Nil
  then show ?case by simp
next
  case (Cons x xs)
  obtain s n where x: "x = (s, n)" by (cases x)
  have "a \<in> address ` fst ` set xs \<or> (set_entry x m) a \<noteq> None"
    using Cons.prems x by auto
  then have "fold set_entry xs (set_entry x m) a \<noteq> None" by (rule Cons.IH)
  then show ?case by simp
qed

lemma build_unsigned_total:
  "senders opts \<noteq> [] \<Longrightarrow> \<forall>s \<in> set (senders opts). m (address s) \<noteq> None \<Longrightarrow>
   \<forall>ty \<in> set tys. \<forall>s \<in> set (senders opts). \<forall>n j. \<exists>t. make_tx opts g ty s n j = Inr t \<Longrightarrow>
     \<exists>ds. build_unsigned opts g i m tys = Inr ds"
proof (induction tys arbitrary: i m)
  case Nil
  then show ?case by simp
next
  case (Cons ty tys)
  define s where "s = senders opts ! (i mod length (senders opts))"
  have smem: "s \<in> set (senders opts)" using Cons.prems(1) by (simp add: s_def)
  then obtain n where n: "m (address s) = Some n" using Cons.prems(2) by auto
  have "\<forall>s \<in> set (senders opts). \<forall>n j. \<exists>t. make_tx opts g ty s n j = Inr t"
    using Cons.prems(3) by simp
  then obtain t where t: "make_tx opts g ty s n i = Inr t" using smem by blast
  have "\<forall>w \<in> set (senders opts). (m(address s \<mapsto> n + 1)) (address w) \<noteq> None"
    using Cons.prems(2) by simp
  moreover have "\<forall>ty \<in> set tys. \<forall>s \<in> set (senders opts). \<forall>n j.
      \<exists>t. make_tx opts g ty s n j = Inr t"
    using Cons.prems(3) by simp
  ultimately obtain rest where
    "build_unsigned opts g (i + 1) (m(address s \<mapsto> n + 1)) tys = Inr rest"
    using Cons.IH [OF Cons.prems(1)] by blast
  then show ?case using Cons.prems(1) n t by (simp add: s_def [symmetric] Let_def)
qed

lemma interleave_member:
  assumes "ty \<in> set (interleave e t s)"
  shows "(ty = TOKEN_TRANSFER \<longrightarrow> 0 < t) \<and> (ty = SWAP \<longrightarrow> 0 < s)"
proof -
  from assms have "filter (\<lambda>x. x = ty) (interleave e t s) \<noteq> []"
    by (simp add: filter_empty_conv)
  then have "0 < length (filter (\<lambda>x. x = ty) (interleave e t s))" by simp
  then show ?thesis unfolding interleave_count by (cases ty) simp_all
qed

lemma build_unsigned_types:
  "build_unsigned opts g i m tys = Inr ds \<Longrightarrow> map txType ds = tys"
proof (induction tys arbitrary: i m ds)
  case Nil
  then show ?case by simp
next
  case (Cons ty tys)
  then show ?case
    by (auto simp: Let_def split: if_splits option.splits sum.splits)
qed

lemma filter_txType_length:
  "length (filter (\<lambda>d. txType d = ty) ds) = length (filter (\<lambda>x. x = ty) (map txType ds))"
  by (induction ds) auto

lemma generatePayload_realized:
  assumes "generatePayload opts = Inr r"
  shows "length (filter (\<lambda>d. txType d = ETH_TRANSFER) (unsignedTxs r)) = nat (ethCount r)"
    and "length (filter (\<lambda>d. txType d = TOKEN_TRANSFER) (unsignedTxs r)) = nat (tokenCount r)"
    and "length (filter (\<lambda>d. txType d = SWAP) (unsignedTxs r)) = nat (swapCount r)"
proof -
  from assms obtain ns g where
    b: "build_unsigned opts g 0 (initSenderNonces (senders opts) ns)
       (interleave (ethCount r) (tokenCount r) (swapCount r)) = Inr (unsignedTxs r)"
    by (rule generatePayload_Inr)
  have m: "map txType (unsignedTxs r) = interleave (ethCount r) (tokenCount r) (swapCount r)"
    using build_unsigned_types [OF b] by simp
  show "length (filter (\<lambda>d. txType d = ETH_TRANSFER) (unsignedTxs r)) = nat (ethCount r)"
    unfolding filter_txType_length m by (simp add: interleave_count)
  show "length (filter (\<lambda>d. txType d = TOKEN_TRANSFER) (unsignedTxs r)) = nat (tokenCount r)"
    unfolding filter_txType_length m by (simp add: interleave_count)
  show "length (filter (\<lambda>d. txType d = SWAP) (unsignedTxs r)) = nat (swapCount r)"
    unfolding filter_txType_length m by (simp add: interleave_count)
qed

lemma length_by_type:
  "length ds = length (filter (\<lambda>d. txType d = ETH_TRANSFER) ds)
     + length (filter (\<lambda>d. txType d = TOKEN_TRANSFER) ds)
     + length (filter (\<lambda>d. txType d = SWAP) ds)"
proof (induction ds)
  case Nil
  then show ?case by simp
next
  case (Cons d ds)
  then show ?case by (cases "txType d") simp_all
qed

lemma initSenderNonces_dom:
  "length ns = length ss \<Longrightarrow> s \<in> set ss \<Longrightarrow> initSenderNonces ss ns (address s) \<noteq> None"
proof -
  assume len: "length ns = length ss" and mem: "s \<in> set ss"
  have "map fst (zip ss ns) = ss" using len by simp
  then have "s \<in> fst ` set (zip ss ns)" using mem by (metis set_map)
  then have "address s \<in> address ` fst ` set (zip ss ns)" by blast
  then show ?thesis unfolding initSenderNonces_def by (simp add: fold_set_entry_dom)
qed

lemma generatePayload_succeeds:
  assumes tok: "\<not> (calc_tokenCount (config opts) > 0 \<and> falsy (token (opt_contracts opts)))"
    and swp: "\<not> (calc_swapCount (config opts) > 0 \<and> (falsy (router (opt_contracts opts))
                \<or> falsy (weth (opt_contracts opts)) \<or> falsy (token (opt_contracts opts))))"
    and nonces: "\<forall>s \<in> set (senders opts). getNonce s \<noteq> None"
    and fee: "feeParams (provider opts) \<noteq> None"
    and ne: "senders opts \<noteq> []"
    and enc_token: "0 < calc_tokenCount (config opts) \<longrightarrow>
        encodes (provider opts)
          (Transfer_call (tokenRecipient (provider opts)) (tokenAmount (config opts)))"
    and enc_swap: "0 < calc_swapCount (config opts) \<longrightarrow>
        (\<forall>s \<in> set (senders opts). \<forall>i. encodes (provider opts)
           (SwapExactETHForTokens_call 0
              [weth (opt_contracts opts), token (opt_contracts opts)] (address s)
              (now_seconds (provider opts) i + 3600)))"
  shows "\<exists>r. generatePayload opts = Inr r"
proof -
  from nonces obtain ns where ns: "fetch_nonces (senders opts) = Some ns"
    by (auto simp: fetch_nonces_def list_all_iff)
  from fee obtain g where g: "feeParams (provider opts) = Some g" by auto
  have len: "length ns = length (senders opts)" using fetch_nonces_Some [OF ns] by simp
  have "\<forall>s \<in> set (senders opts). initSenderNonces (senders opts) ns (address s) \<noteq> None"
    using initSenderNonces_dom [OF len] by blast
  moreover have "\<forall>ty \<in> set (interleave (calc_ethCount (config opts))
        (calc_tokenCount (config opts)) (calc_swapCount (config opts))).
      \<forall>s \<in> set (senders opts). \<forall>n j. \<exists>t. make_tx opts g ty s n j = Inr t"
  proof (intro ballI allI)
    fix ty s n j
    assume ty: "ty \<in> set (interleave (calc_ethCount (config opts))
        (calc_tokenCount (config opts)) (calc_swapCount (config opts)))"
      and s: "s \<in> set (senders opts)"
    note pos = interleave_member [OF ty]
    show "\<exists>t. make_tx opts g ty s n j = Inr t"
    proof (cases ty)
      case ETH_TRANSFER
      then show ?thesis by (simp add: make_tx_def)
    next
      case TOKEN_TRANSFER
      then show ?thesis
        using pos enc_token by (simp add: make_tx_def generateTokenTransferTx_def)
    next
      case SWAP
      then show ?thesis
        using pos enc_swap s by (simp add: make_tx_def generateSwapTx_def Let_def)
    qed
  qed
  ultimately obtain ds where "build_unsigned opts g 0 (initSenderNonces (senders opts) ns)
      (interleave (calc_ethCount (config opts)) (calc_tokenCount (config opts))
         (calc_swapCount (config opts))) = Inr ds"
    using build_unsigned_total [OF ne] by blast
  then show ?thesis
    using tok swp ns g unfolding generatePayload_def Let_def by simp
qed

lemma example_counts:
  "calc_ethCount (config (example_options 5 eth_only cs)) = 5"
  "calc_tokenCount (config (example_options 5 eth_only cs)) = 0"
  "calc_swapCount (config (example_options 5 eth_only cs)) = 0"
  "calc_ethCount (config (example_options 10 mix_67_33_0 cs)) = 6"
  "calc_tokenCount (config (example_options 10 mix_67_33_0 cs)) = 3"
  "calc_swapCount (config (example_options 10 mix_67_33_0 cs)) = 1"
  "calc_ethCount (config (example_options 10 mix_99_1_0 cs)) = 9"
  "calc_tokenCount (config (example_options 10 mix_99_1_0 cs)) = 0"
  "calc_swapCount (config (example_options 10 mix_99_1_0 cs)) = 1"
  by (simp_all add: calc_swapCount_def calc_ethCount_def calc_tokenCount_def mix_of_def
      example_options_def eth_only_def mix_67_33_0_def mix_99_1_0_def)

lemma example_options_fields:
  "senders (example_options n mix cs) = [alice, bob]"
  "feeParams (provider (example_options n mix cs)) \<noteq> None"
  "opt_contracts (example_options n mix cs) = cs"
  "\<forall>s \<in> set [alice, bob]. getNonce s \<noteq> None"
  by (simp_all add: example_options_def example_runtime_def alice_def bob_def)

lemma example_addresses:
  "hex_address ''0xa11ce00000000000000000000000000000000001''"
  "hex_address ''0xb0b0000000000000000000000000000000000002''"
  "hex_address ''0x7000000000000000000000000000000000000004''"
  "hex_address ''0x70ce000000000000000000000000000000000005''"
  "hex_address ''0xe100000000000000000000000000000000000007''"
  by code_simp+

lemma example_encoding:
  "encodes (provider (example_options n mix cs))
     (Transfer_call (tokenRecipient (provider (example_options n mix cs)))
        (tokenAmount (config (example_options n mix cs))))"
  "\<forall>s \<in> set [alice, bob]. \<forall>i. encodes (provider (example_options n mix all_contracts))
     (SwapExactETHForTokens_call 0 [weth all_contracts, token all_contracts] (address s)
        (now_seconds (provider (example_options n mix all_contracts)) i + 3600))"
  by (simp_all add: example_options_def example_runtime_def example_encodes_def
      all_contracts_def alice_def bob_def example_addresses)

lemma example_contracts:
  "falsy (token no_contracts)" "falsy (router no_contracts)" "falsy (weth no_contracts)"
  "\<not> falsy (token token_only)" "falsy (router token_only)" "falsy (weth token_only)"
  "\<not> falsy (token all_contracts)" "\<not> falsy (router all_contracts)"
  "\<not> falsy (weth all_contracts)"
  by (simp_all add: falsy_def no_contracts_def token_only_def all_contracts_def)

lemma example_payload: "\<exists>r. generatePayload (example_options n mix all_contracts) = Inr r"
proof (rule generatePayload_succeeds)
  let ?o = "example_options n mix all_contracts"
  show "\<not> (calc_tokenCount (config ?o) > 0 \<and> falsy (token (opt_contracts ?o)))"
    by (simp add: example_options_fields example_contracts)
  show "\<not> (calc_swapCount (config ?o) > 0 \<and> (falsy (router (opt_contracts ?o))
      \<or> falsy (weth (opt_contracts ?o)) \<or> falsy (token (opt_contracts ?o))))"
    by (simp add: example_options_fields example_contracts)
  show "\<forall>s \<in> set (senders ?o). getNonce s \<noteq> None"
    unfolding example_options_fields(1) by (rule example_options_fields(4))
  show "feeParams (provider ?o) \<noteq> None" by (rule example_options_fields(2))
  show "senders ?o \<noteq> []" by (simp add: example_options_fields)
  show "0 < calc_tokenCount (config ?o) \<longrightarrow>
      encodes (provider ?o) (Transfer_call (tokenRecipient (provider ?o)) (tokenAmount (config ?o)))"
    by (simp add: example_encoding(1))
  show "0 < calc_swapCount (config ?o) \<longrightarrow>
      (\<forall>s \<in> set (senders ?o). \<forall>i. encodes (provider ?o)
         (SwapExactETHForTokens_call 0 [weth (opt_contracts ?o), token (opt_contracts ?o)]
            (address s) (now_seconds (provider ?o) i + 3600)))"
    unfolding example_options_fields(1,3) by (intro impI) (rule example_encoding(2))
qed

section \<open>Facts about rounding\<close>

lemma round_half_even_error: "\<bar>of_int (round_half_even m) - m\<bar> \<le> 1 / 2"
proof -
  have "of_int \<lfloor>m\<rfloor> \<le> m" "m < of_int \<lfloor>m\<rfloor> + 1" by linarith+
  then show ?thesis
    unfolding round_half_even_def Let_def by (auto simp: abs_le_iff)
qed

lemma round_half_even_nonneg: "0 \<le> m \<Longrightarrow> 0 \<le> round_half_even m"
  unfolding round_half_even_def Let_def by auto

lemma exponent_lower:
  assumes "0 < (a::rat)"
  defines "k \<equiv> int (floorlog 2 (nat (fst (quotient_of a))))
                  - int (floorlog 2 (nat (snd (quotient_of a))))"
  shows "2 powi (k - 1) \<le> a"
proof -
  obtain p q where pq: "quotient_of a = (p, q)" by (cases "quotient_of a")
  have q: "0 < q" using pq by (rule quotient_of_denom_pos)
  have a: "a = of_int p / of_int q" using pq by (rule quotient_of_div)
  have p: "0 < p" using assms(1) q a by (simp add: zero_less_divide_iff)
  define fp where "fp = floorlog 2 (nat p)"
  define fq where "fq = floorlog 2 (nat q)"
  have bp: "2 ^ (fp - 1) \<le> nat p" unfolding fp_def using floorlog_bounds [of "nat p" 2] p by simp
  have bq: "nat q < 2 ^ fq" unfolding fq_def using floorlog_bounds [of "nat q" 2] q by simp
  have fp1: "1 \<le> fp" unfolding fp_def using p by (simp add: floorlog_def)
  have "(2::rat) ^ (fp - 1) \<le> of_int p"
  proof -
    have "(of_nat (2 ^ (fp - 1)) :: rat) \<le> of_nat (nat p)" using bp by (rule of_nat_mono)
    then show ?thesis using p by simp
  qed
  moreover have "(of_int q :: rat) \<le> 2 ^ fq"
  proof -
    have "(of_nat (nat q) :: rat) \<le> of_nat (2 ^ fq)" using bq by (simp only: of_nat_le_iff)
    then show ?thesis using q by simp
  qed
  ultimately have "(2::rat) ^ (fp - 1) / 2 ^ fq \<le> of_int p / of_int q"
    using q p by (intro frac_le) auto
  moreover have "(2::rat) powi (k - 1) = 2 ^ (fp - 1) / 2 ^ fq"
  proof -
    have "k - 1 = int (fp - 1) - int fq"
      unfolding k_def pq fst_conv snd_conv fp_def [symmetric] fq_def [symmetric]
      using fp1 by simp
    then show ?thesis by (simp add: power_int_diff)
  qed
  ultimately show ?thesis using a by simp
qed

lemma fl_error:
  assumes "0 < x"
  shows "\<bar>fl x - x\<bar> \<le> x / 2 ^ 53"
proof -
  define k where "k = int (floorlog 2 (nat (fst (quotient_of x))))
                  - int (floorlog 2 (nat (snd (quotient_of x))))"
  define e where "e = (if 2 powi k \<le> x then k else k - 1)"
  define u :: rat where "u = 2 powi (e - 52)"
  define r where "r = round_half_even (x / u)"
  have ax: "\<bar>x\<bar> = x" "sgn x = 1" "x \<noteq> 0" using assms by simp_all
  have flx: "fl x = of_int r * u"
    unfolding fl_def Let_def ax k_def [symmetric] e_def [symmetric] u_def [symmetric]
      r_def [symmetric] using ax(3) by simp
  have elow: "2 powi e \<le> x"
    unfolding e_def using exponent_lower [OF assms] by (auto simp: k_def)
  have upos: "0 < u" unfolding u_def by simp
  have "\<bar>fl x - x\<bar> = \<bar>of_int r - x / u\<bar> * u"
  proof -
    have "fl x - x = (of_int r - x / u) * u" using upos flx by (simp add: field_simps)
    then show ?thesis using upos by (simp add: abs_mult)
  qed
  also have "\<dots> \<le> (1 / 2) * u"
    using round_half_even_error [of "x / u"] upos unfolding r_def
    by (intro mult_right_mono) auto
  also have "(1 / 2) * u = 2 powi e / 2 ^ 53"
  proof -
    have "e - 52 = e - int 53 + 1" by simp
    then have "u = 2 powi e / 2 ^ 53 * 2"
      unfolding u_def by (simp add: power_int_diff power_int_add del: of_nat_numeral)
    then show ?thesis by simp
  qed
  also have "\<dots> \<le> x / 2 ^ 53" using elow by (simp add: divide_right_mono)
  finally show ?thesis .
qed

lemma fl_nonneg: "0 \<le> x \<Longrightarrow> 0 \<le> fl x"
  unfolding fl_def Let_def
  by (auto simp: sgn_if intro!: mult_nonneg_nonneg round_half_even_nonneg divide_nonneg_nonneg)


lemma scaled_zero: "scaled 0 tot = 0"
  by (simp add: scaled_def fl_def)

lemma scaled_error:
  assumes "0 \<le> part" "part \<le> tot" "0 < tot"
  shows "\<bar>scaled part tot - 100 * of_int part / of_int tot\<bar> \<le> 300 / 2 ^ 53"
    and "0 \<le> scaled part tot"
proof -
  define c :: rat where "c = of_int part / of_int tot"
  define q where "q = fl c"
  define v where "v = fl (q * 100)"
  have c0: "0 \<le> c" and c1: "c \<le> 1" using assms by (simp_all add: c_def)
  have v: "scaled part tot = v" by (simp add: scaled_def v_def q_def c_def)
  have q0: "0 \<le> q" unfolding q_def using c0 by (rule fl_nonneg)
  have v0: "0 \<le> v" unfolding v_def using q0 by (intro fl_nonneg) simp
  show "0 \<le> scaled part tot" using v v0 by simp
  have qe: "\<bar>q - c\<bar> \<le> c / 2 ^ 53"
  proof (cases "c = 0")
    case True
    then show ?thesis by (simp add: q_def fl_def)
  next
    case False
    then have "0 < c" using c0 by simp
    then show ?thesis unfolding q_def by (rule fl_error)
  qed
  have ve: "\<bar>v - q * 100\<bar> \<le> q * 100 / 2 ^ 53"
  proof (cases "q = 0")
    case True
    then show ?thesis by (simp add: v_def fl_def)
  next
    case False
    then have "0 < q * 100" using q0 by simp
    then show ?thesis unfolding v_def by (rule fl_error)
  qed
  have "c / 2 ^ 53 \<le> 1" using c0 c1 by (simp add: field_simps)
  then have q2: "q \<le> 2" using qe c1 by linarith
  have "\<bar>v - 100 * c\<bar> = \<bar>(v - q * 100) + 100 * (q - c)\<bar>" by (simp add: algebra_simps)
  also have "\<dots> \<le> \<bar>v - q * 100\<bar> + \<bar>100 * (q - c)\<bar>" by (rule abs_triangle_ineq)
  also have "\<bar>100 * (q - c)\<bar> = 100 * \<bar>q - c\<bar>" by (subst abs_mult) simp
  finally have "\<bar>v - 100 * c\<bar> \<le> \<bar>v - q * 100\<bar> + 100 * \<bar>q - c\<bar>" .
  also have "\<dots> \<le> q * 100 / 2 ^ 53 + 100 * (c / 2 ^ 53)"
    using ve qe by (intro add_mono mult_left_mono) simp_all
  also have "\<dots> \<le> 2 * 100 / 2 ^ 53 + 100 * (1 / 2 ^ 53)"
    using q2 c1 by (intro add_mono mult_left_mono divide_right_mono mult_right_mono) simp_all
  also have "\<dots> = 300 / 2 ^ 53" by simp
  finally show "\<bar>scaled part tot - 100 * of_int part / of_int tot\<bar> \<le> 300 / 2 ^ 53"
    using v by (simp add: c_def)
qed

lemma js_round_bounds: "of_int (js_round x) \<le> x + 1 / 2" "x - 1 / 2 < of_int (js_round x)"
  unfolding js_round_def by linarith+

lemma js_round_nonneg: "0 \<le> x \<Longrightarrow> 0 \<le> js_round x"
  unfolding js_round_def by simp

lemma shares_sum:
  assumes "0 \<le> e" "0 \<le> t" "0 \<le> s" "0 < e + t + s"
  defines "n \<equiv> e + t + s"
  shows "99 \<le> js_round (scaled e n) + js_round (scaled t n) + js_round (scaled s n)"
    and "js_round (scaled e n) + js_round (scaled t n) + js_round (scaled s n) \<le> 101"
proof -
  have n: "0 < n" "e \<le> n" "t \<le> n" "s \<le> n" using assms by (simp_all add: n_def)
  note ee = scaled_error(1) [OF assms(1) n(2) n(1)]
  note et = scaled_error(1) [OF assms(2) n(3) n(1)]
  note es = scaled_error(1) [OF assms(3) n(4) n(1)]
  have "100 * of_int e / of_int n + 100 * of_int t / of_int n + 100 * of_int s / of_int n
      = (100 * of_int e + 100 * of_int t + 100 * of_int s) / (of_int n :: rat)"
    by (simp only: add_divide_distrib)
  also have "100 * of_int e + 100 * of_int t + 100 * of_int s = (100 :: rat) * of_int n"
    unfolding n_def by simp
  also have "(100 :: rat) * of_int n / of_int n = 100"
  proof -
    have "(of_int n :: rat) \<noteq> 0" using n(1) by simp
    then show ?thesis by simp
  qed
  finally have tot: "100 * of_int e / of_int n + 100 * of_int t / of_int n
      + 100 * of_int s / of_int n = (100 :: rat)" .
  have small: "(300 :: rat) / 2 ^ 53 < 1 / 6" by simp
  define xe :: rat where "xe = 100 * of_int e / of_int n"
  define xt :: rat where "xt = 100 * of_int t / of_int n"
  define xs :: rat where "xs = 100 * of_int s / of_int n"
  define ve where "ve = scaled e n"
  define vt where "vt = scaled t n"
  define vs where "vs = scaled s n"
  have x: "xe + xt + xs = 100" using tot by (simp add: xe_def xt_def xs_def)
  have "\<bar>ve - xe\<bar> < 1 / 6" using ee small unfolding ve_def xe_def by linarith
  then have be: "xe - 1 / 6 < ve" "ve < xe + 1 / 6" unfolding abs_less_iff by linarith+
  have "\<bar>vt - xt\<bar> < 1 / 6" using et small unfolding vt_def xt_def by linarith
  then have bt: "xt - 1 / 6 < vt" "vt < xt + 1 / 6" unfolding abs_less_iff by linarith+
  have "\<bar>vs - xs\<bar> < 1 / 6" using es small unfolding vs_def xs_def by linarith
  then have bs: "xs - 1 / 6 < vs" "vs < xs + 1 / 6" unfolding abs_less_iff by linarith+
  let ?S = "js_round ve + js_round vt + js_round vs"
  have lo: "(98 :: rat) < of_int (js_round ve) + of_int (js_round vt) + of_int (js_round vs)"
    using js_round_bounds(2) [of ve] js_round_bounds(2) [of vt] js_round_bounds(2) [of vs]
      be bt bs x by linarith
  have hi: "of_int (js_round ve) + of_int (js_round vt) + of_int (js_round vs) < (102 :: rat)"
    using js_round_bounds(1) [of ve] js_round_bounds(1) [of vt] js_round_bounds(1) [of vs]
      be bt bs x by linarith
  from lo have "98 < ?S" by (simp only: of_int_less_iff [symmetric, where 'a = rat] of_int_add of_int_numeral)
  then show "99 \<le> js_round (scaled e n) + js_round (scaled t n) + js_round (scaled s n)"
    by (simp add: ve_def vt_def vs_def)
  from hi have "?S < 102" by (simp only: of_int_less_iff [symmetric, where 'a = rat] of_int_add of_int_numeral)
  then show "js_round (scaled e n) + js_round (scaled t n) + js_round (scaled s n) \<le> 101"
    by (simp add: ve_def vt_def vs_def)
qed

lemma share_identity:
  assumes "0 \<le> e" "e \<le> 100"
  shows "js_round (scaled e 100) = e"
proof -
  have "\<bar>scaled e 100 - 100 * of_int e / of_int 100\<bar> \<le> 300 / 2 ^ 53"
    using assms by (intro scaled_error(1)) simp_all
  then have "\<bar>scaled e 100 - of_int e\<bar> \<le> 300 / 2 ^ 53" by simp
  moreover have "(300 :: rat) / 2 ^ 53 < 1 / 2" by simp
  ultimately have "\<bar>scaled e 100 - of_int e\<bar> < 1 / 2" by linarith
  then have "of_int e \<le> scaled e 100 + 1 / 2" "scaled e 100 + 1 / 2 < of_int e + 1"
    by linarith+
  then show ?thesis unfolding js_round_def by linarith
qed

section \<open>Nonce sequences\<close>

text \<open>
  C1. For senders with pairwise distinct addresses, and for each of them: in every payload
  the generator returns, the nonces of that sender's descriptors, in the order of the
  descriptors, are \<open>n0, n0 + 1, n0 + 2, ...\<close> without a gap, where \<open>n0\<close> is the on-chain
  nonce that was fetched for the sender; the chain is asked for exactly one nonce per
  sender and for none while the descriptors are built. The same holds for the descriptors
  the single-type driver builds.
\<close>

theorem sender_nonces_sequential:
  assumes "distinct (map address ss)" and "s \<in> set ss"
  shows "(\<forall>opts r. senders opts = ss \<and> generatePayload opts = Inr r \<longrightarrow>
            nonceQueries r = map address ss
            \<and> (\<exists>n0. getNonce s = Some n0
                \<and> map (\<lambda>d. nonce (tx d))
                      (filter (\<lambda>d. address (sender d) = address s) (unsignedTxs r))
                    = [n0 ..< n0 + length (filter (\<lambda>d. address (sender d) = address s)
                                             (unsignedTxs r))]))
       \<and> (\<forall>cfg cid prov ds. prepareTransactions_simple ss cfg cid prov = Inr ds \<longrightarrow>
            (\<exists>n0. getNonce s = Some n0
                \<and> map (\<lambda>d. nonce (tx d)) (filter (\<lambda>d. address (sender d) = address s) ds)
                    = [n0 ..< n0 + length (filter (\<lambda>d. address (sender d) = address s) ds)]))"
proof (intro conjI allI impI)
  fix opts r
  assume a: "senders opts = ss \<and> generatePayload opts = Inr r"
  then show "nonceQueries r = map address ss"
    by (auto elim: generatePayload_Inr)
  from a assms have "distinct (map address (senders opts))" "s \<in> set (senders opts)"
    by auto
  with a show "\<exists>n0. getNonce s = Some n0
      \<and> map (\<lambda>d. nonce (tx d))
            (filter (\<lambda>d. address (sender d) = address s) (unsignedTxs r))
          = [n0 ..< n0 + length (filter (\<lambda>d. address (sender d) = address s)
                                   (unsignedTxs r))]"
    using generatePayload_sender_nonces [of opts r s] by blast
next
  fix cfg cid prov ds
  assume "prepareTransactions_simple ss cfg cid prov = Inr ds"
  then show "\<exists>n0. getNonce s = Some n0
      \<and> map (\<lambda>d. nonce (tx d)) (filter (\<lambda>d. address (sender d) = address s) ds)
          = [n0 ..< n0 + length (filter (\<lambda>d. address (sender d) = address s) ds)]"
    using assms by (rule prepareTransactions_simple_sender_nonces)
qed

theorem sender_nonces_sequential_witness:
  "\<exists>r n0 ds n1.
     generatePayload (example_options 5 eth_only no_contracts) = Inr r
     \<and> nonceQueries r = [''0xa11ce00000000000000000000000000000000001'',
                         ''0xb0b0000000000000000000000000000000000002'']
     \<and> getNonce alice = Some n0 \<and> n0 = 7
     \<and> map (\<lambda>d. nonce (tx d)) (filter (\<lambda>d. address (sender d) = address alice) (unsignedTxs r))
         = [n0 ..< n0 + length (filter (\<lambda>d. address (sender d) = address alice) (unsignedTxs r))]
     \<and> prepareTransactions_simple [alice, bob] example_simple_config 412 example_runtime = Inr ds
     \<and> getNonce bob = Some n1 \<and> n1 = 0
     \<and> map (\<lambda>d. nonce (tx d)) (filter (\<lambda>d. address (sender d) = address bob) ds)
         = [n1 ..< n1 + length (filter (\<lambda>d. address (sender d) = address bob) ds)]"
proof -
  let ?opts = "example_options 5 eth_only no_contracts"
  let ?p = "prepareTransactions_simple [alice, bob] example_simple_config 412 example_runtime"
  have d: "distinct (map address [alice, bob])" by (simp add: alice_def bob_def)
  have ma: "alice \<in> set [alice, bob]" and mb: "bob \<in> set [alice, bob]" by simp_all
  have ss: "senders ?opts = [alice, bob]" by (rule example_options_fields)
  have "\<exists>r. generatePayload ?opts = Inr r"
    by (rule generatePayload_succeeds) (simp_all add: example_counts example_options_fields)
  then obtain r where r: "generatePayload ?opts = Inr r" by blast
  have "\<exists>ds. ?p = Inr ds"
    by (simp add: prepareTransactions_simple_def fetch_nonces_def alice_def bob_def
        example_runtime_def Let_def)
  then obtain ds where ds: "?p = Inr ds" by blast
  note ta = sender_nonces_sequential [OF d ma, THEN conjunct1, rule_format,
      of ?opts r, OF conjI [OF ss r]]
  note tb = sender_nonces_sequential [OF d mb, THEN conjunct2, rule_format,
      of example_simple_config 412 example_runtime ds, OF ds]
  from ta obtain n0 where q: "nonceQueries r = map address [alice, bob]" and
    n0: "getNonce alice = Some n0" and
    ea: "map (\<lambda>d. nonce (tx d)) (filter (\<lambda>d. address (sender d) = address alice)
        (unsignedTxs r))
      = [n0 ..< n0 + length (filter (\<lambda>d. address (sender d) = address alice) (unsignedTxs r))]"
    by blast
  from tb obtain n1 where n1: "getNonce bob = Some n1" and
    eb: "map (\<lambda>d. nonce (tx d)) (filter (\<lambda>d. address (sender d) = address bob) ds)
      = [n1 ..< n1 + length (filter (\<lambda>d. address (sender d) = address bob) ds)]"
    by blast
  have "n0 = 7" using n0 by (simp add: alice_def)
  moreover have "n1 = 0" using n1 by (simp add: bob_def)
  moreover have "nonceQueries r = [''0xa11ce00000000000000000000000000000000001'',
      ''0xb0b0000000000000000000000000000000000002'']"
    using q by (simp add: alice_def bob_def)
  ultimately show ?thesis using r ds n0 n1 ea eb by blast
qed

lemma generatePayload_token_error:
  "calc_tokenCount (config opts) > 0 \<Longrightarrow> falsy (token (opt_contracts opts)) \<Longrightarrow>
     generatePayload opts = Inl TokenAddressRequired"
  by (simp add: generatePayload_def Let_def)

lemma generatePayload_swap_error:
  "\<not> (calc_tokenCount (config opts) > 0 \<and> falsy (token (opt_contracts opts))) \<Longrightarrow>
   calc_swapCount (config opts) > 0 \<Longrightarrow>
   falsy (router (opt_contracts opts)) \<or> falsy (weth (opt_contracts opts))
     \<or> falsy (token (opt_contracts opts)) \<Longrightarrow>
     generatePayload opts = Inl SwapAddressesRequired"
  by (simp add: generatePayload_def Let_def)



lemma build_unsigned_encoding_fails:
  "senders opts \<noteq> [] \<Longrightarrow> \<forall>s \<in> set (senders opts). m (address s) \<noteq> None \<Longrightarrow>
   \<forall>c. \<not> encodes (provider opts) c \<Longrightarrow> \<exists>ty \<in> set tys. ty \<noteq> ETH_TRANSFER \<Longrightarrow>
     build_unsigned opts g i m tys = Inl EncodingFailed"
proof (induction tys arbitrary: i m)
  case Nil
  then show ?case by simp
next
  case (Cons ty tys)
  define s where "s = senders opts ! (i mod length (senders opts))"
  have smem: "s \<in> set (senders opts)" using Cons.prems(1) by (simp add: s_def)
  then obtain n where n: "m (address s) = Some n" using Cons.prems(2) by auto
  show ?case
  proof (cases "ty = ETH_TRANSFER")
    case False
    then have "make_tx opts g ty s n i = Inl EncodingFailed"
      using Cons.prems(3)
      by (cases ty) (simp_all add: make_tx_def generateTokenTransferTx_def generateSwapTx_def Let_def)
    then show ?thesis using Cons.prems(1) n by (simp add: s_def [symmetric] Let_def)
  next
    case True
    then obtain t where t: "make_tx opts g ty s n i = Inr t" by (simp add: make_tx_def)
    have "\<forall>w \<in> set (senders opts). (m(address s \<mapsto> n + 1)) (address w) \<noteq> None"
      using Cons.prems(2) by simp
    moreover have "\<exists>ty \<in> set tys. ty \<noteq> ETH_TRANSFER" using Cons.prems(4) True by simp
    ultimately have "build_unsigned opts g (i + 1) (m(address s \<mapsto> n + 1)) tys
        = Inl EncodingFailed"
      using Cons.IH [OF Cons.prems(1) _ Cons.prems(3)] by blast
    then show ?thesis using Cons.prems(1) n t by (simp add: s_def [symmetric] Let_def)
  qed
qed

lemma generatePayload_encoding_fails:
  assumes swp: "0 < calc_swapCount (config opts)"
    and cs: "\<not> falsy (token (opt_contracts opts))" "\<not> falsy (router (opt_contracts opts))"
      "\<not> falsy (weth (opt_contracts opts))"
    and nonces: "\<forall>s \<in> set (senders opts). getNonce s \<noteq> None"
    and fee: "feeParams (provider opts) \<noteq> None"
    and ne: "senders opts \<noteq> []"
    and enc: "\<forall>c. \<not> encodes (provider opts) c"
  shows "generatePayload opts = Inl EncodingFailed"
proof -
  from nonces obtain ns where ns: "fetch_nonces (senders opts) = Some ns"
    by (auto simp: fetch_nonces_def list_all_iff)
  from fee obtain g where g: "feeParams (provider opts) = Some g" by auto
  have len: "length ns = length (senders opts)" using fetch_nonces_Some [OF ns] by simp
  have dom: "\<forall>s \<in> set (senders opts). initSenderNonces (senders opts) ns (address s) \<noteq> None"
    using initSenderNonces_dom [OF len] by blast
  let ?tys = "interleave (calc_ethCount (config opts)) (calc_tokenCount (config opts))
      (calc_swapCount (config opts))"
  have "0 < length (filter (\<lambda>x. x = SWAP) ?tys)" using swp by (simp add: interleave_count)
  then have "filter (\<lambda>x. x = SWAP) ?tys \<noteq> []" by simp
  then have "\<exists>ty \<in> set ?tys. ty = SWAP" by (simp add: filter_empty_conv)
  then have "\<exists>ty \<in> set ?tys. ty \<noteq> ETH_TRANSFER" by auto
  from build_unsigned_encoding_fails [OF ne dom enc this]
  have "build_unsigned opts g 0 (initSenderNonces (senders opts) ns) ?tys = Inl EncodingFailed" .
  then show ?thesis
    using cs ns g unfolding generatePayload_def Let_def by simp
qed

lemma setupContracts_without_swaps:
  assumes "swap m = 0" "0 \<le> tokenTransfer m"
    and "setupContracts m no_contracts dep = Resolves cs"
    and "\<forall>a. deployToken dep = Resolves a \<longrightarrow> \<not> falsy a"
  shows "falsy (router cs)" "falsy (weth cs)" "0 < tokenTransfer m \<longrightarrow> \<not> falsy (token cs)"
proof -
  have f: "falsy (token no_contracts)" "falsy (router no_contracts)" "falsy (weth no_contracts)"
    by (simp_all add: falsy_def no_contracts_def)
  have "falsy (router cs) \<and> falsy (weth cs) \<and> (0 < tokenTransfer m \<longrightarrow> \<not> falsy (token cs))"
  proof (cases "0 < tokenTransfer m")
    case True
    then obtain a where "deployToken dep = Resolves a" "cs = no_contracts\<lparr>token := a\<rparr>"
      using assms(1,3) f
      by (auto simp: setupContracts_def getRequiredContracts_def split: rpc.splits)
    then show ?thesis using assms(4) f by simp
  next
    case False
    then have "cs = no_contracts"
      using assms(1,3) by (simp add: setupContracts_def getRequiredContracts_def)
    then show ?thesis using False f by simp
  qed
  then show "falsy (router cs)" "falsy (weth cs)" "0 < tokenTransfer m \<longrightarrow> \<not> falsy (token cs)"
    by simp_all
qed

lemma example_setup:
  "setupContracts mix_67_33_0 no_contracts example_deployments = Resolves token_only"
  by (simp add: setupContracts_def getRequiredContracts_def mix_67_33_0_def falsy_def
      no_contracts_def example_deployments_def all_contracts_def token_only_def)

text \<open>
  At a direct call with 67:33:0, 10 transactions and no address at all, the error thrown
  is the token-address error of the first check: the token count is 3.
\<close>

lemma token_check_comes_first:
  "generatePayload (example_options 10 mix_67_33_0 no_contracts) = Inl TokenAddressRequired"
  by (rule generatePayload_token_error)
    (simp_all add: example_counts example_options_fields example_contracts)

section \<open>The swap remainder with a zero swap share\<close>

text \<open>
  C9. The swap count is what is left of \<open>txCount\<close> after the two floors. There are mixes
  that sum to 100 with a swap share of 0 whose floors do not cover the total: 67:33:0 with
  10 transactions gives 6, 3 and 1, so one swap descriptor is due, and a payload that is
  returned holds it. With no address configured, the contract setup of the driver deploys
  the token for the token share and no router or WETH, and generation throws the
  router/WETH/token error. 99:1:0 with 10 transactions gives 9, 0 and 1, and
  \<^verbatim>\<open>generatePayload\<close> called with no address configured throws that error. In general: when a mix with swap share 0 and a token share that
  is not negative leaves a positive swap count, the contracts are those the setup returns
  from an empty configuration, and a token deployment gives an address, generation throws
  the router/WETH/token error. Whenever the swap count is positive, generation throws the
  token-address error when the token count is positive and no token address is given,
  and otherwise the router/WETH/token error when one of the three addresses is missing;
  with all three given (the nonce and fee queries answered, at least one sender) it returns
  a payload with exactly swap-count many swap descriptors when the library encodes the
  calls, and throws the encoder's error when the library encodes none.
\<close>

theorem swap_remainder_errors:
  "ethTransfer mix_67_33_0 + tokenTransfer mix_67_33_0 + swap mix_67_33_0 = 100
   \<and> swap mix_67_33_0 = 0
   \<and> calc_ethCount (config (example_options 10 mix_67_33_0 token_only))
       + calc_tokenCount (config (example_options 10 mix_67_33_0 token_only))
       < txCount (config (example_options 10 mix_67_33_0 token_only))
   \<and> calc_swapCount (config (example_options 10 mix_67_33_0 token_only)) = 1
   \<and> setupContracts mix_67_33_0 no_contracts example_deployments = Resolves token_only
   \<and> generatePayload (example_options 10 mix_67_33_0 token_only) = Inl SwapAddressesRequired
   \<and> (\<forall>(opts :: options) m dep cs.
         txMix (config opts) = Some m \<and> swap m = 0 \<and> 0 \<le> tokenTransfer m
         \<and> 0 < calc_swapCount (config opts)
         \<and> setupContracts m no_contracts dep = Resolves cs
         \<and> (\<forall>a. deployToken dep = Resolves a \<longrightarrow> \<not> falsy a)
         \<and> opt_contracts opts = cs
        \<longrightarrow> generatePayload opts = Inl SwapAddressesRequired)
   \<and> (\<forall>opts :: options. 0 < calc_swapCount (config opts) \<longrightarrow>
         (calc_tokenCount (config opts) > 0 \<and> falsy (token (opt_contracts opts))
            \<longrightarrow> generatePayload opts = Inl TokenAddressRequired)
       \<and> (\<not> (calc_tokenCount (config opts) > 0 \<and> falsy (token (opt_contracts opts)))
             \<and> (falsy (router (opt_contracts opts)) \<or> falsy (weth (opt_contracts opts))
                  \<or> falsy (token (opt_contracts opts)))
            \<longrightarrow> generatePayload opts = Inl SwapAddressesRequired)
       \<and> (\<not> falsy (token (opt_contracts opts)) \<and> \<not> falsy (router (opt_contracts opts))
             \<and> \<not> falsy (weth (opt_contracts opts))
             \<and> (\<forall>s \<in> set (senders opts). getNonce s \<noteq> None)
             \<and> feeParams (provider opts) \<noteq> None \<and> senders opts \<noteq> []
            \<longrightarrow> ((0 < calc_tokenCount (config opts) \<longrightarrow>
                      encodes (provider opts)
                        (Transfer_call (tokenRecipient (provider opts))
                           (tokenAmount (config opts))))
                   \<and> (\<forall>s \<in> set (senders opts). \<forall>i. encodes (provider opts)
                         (SwapExactETHForTokens_call 0
                            [weth (opt_contracts opts), token (opt_contracts opts)] (address s)
                            (now_seconds (provider opts) i + 3600)))
                  \<longrightarrow> (\<exists>r. generatePayload opts = Inr r
                         \<and> length (filter (\<lambda>d. txType d = SWAP) (unsignedTxs r))
                             = nat (calc_swapCount (config opts))
                         \<and> 1 \<le> length (filter (\<lambda>d. txType d = SWAP) (unsignedTxs r))))
                \<and> ((\<forall>c. \<not> encodes (provider opts) c)
                  \<longrightarrow> generatePayload opts = Inl EncodingFailed)))
   \<and> ethTransfer mix_99_1_0 + tokenTransfer mix_99_1_0 + swap mix_99_1_0 = 100
   \<and> swap mix_99_1_0 = 0
   \<and> calc_swapCount (config (example_options 10 mix_99_1_0 no_contracts)) = 1
   \<and> token no_contracts = None \<and> router no_contracts = None \<and> weth no_contracts = None
   \<and> generatePayload (example_options 10 mix_99_1_0 no_contracts) = Inl SwapAddressesRequired"
proof (intro conjI allI impI)
  show "ethTransfer mix_67_33_0 + tokenTransfer mix_67_33_0 + swap mix_67_33_0 = 100"
    "swap mix_67_33_0 = 0"
    by (simp_all add: mix_67_33_0_def)
  show "calc_ethCount (config (example_options 10 mix_67_33_0 token_only))
       + calc_tokenCount (config (example_options 10 mix_67_33_0 token_only))
       < txCount (config (example_options 10 mix_67_33_0 token_only))"
  proof -
    have "txCount (config (example_options 10 mix_67_33_0 token_only)) = 10"
      by (simp add: example_options_def)
    then show ?thesis by (simp add: example_counts)
  qed
  show "calc_swapCount (config (example_options 10 mix_67_33_0 token_only)) = 1"
    by (simp add: example_counts)
  show "setupContracts mix_67_33_0 no_contracts example_deployments = Resolves token_only"
    by (rule example_setup)
  show "generatePayload (example_options 10 mix_67_33_0 token_only) = Inl SwapAddressesRequired"
    by (rule generatePayload_swap_error)
      (simp_all add: example_counts example_options_fields example_contracts)
next
  fix opts :: options and m dep cs
  assume h: "txMix (config opts) = Some m \<and> swap m = 0 \<and> 0 \<le> tokenTransfer m
         \<and> 0 < calc_swapCount (config opts)
         \<and> setupContracts m no_contracts dep = Resolves cs
         \<and> (\<forall>a. deployToken dep = Resolves a \<longrightarrow> \<not> falsy a)
         \<and> opt_contracts opts = cs"
  then have s: "falsy (router cs)" "0 < tokenTransfer m \<longrightarrow> \<not> falsy (token cs)"
    using setupContracts_without_swaps [of m dep cs] by simp_all
  have "\<not> (calc_tokenCount (config opts) > 0 \<and> falsy (token (opt_contracts opts)))"
  proof (cases "0 < tokenTransfer m")
    case True
    then show ?thesis using s h by simp
  next
    case False
    then have "tokenTransfer m = 0" using h by simp
    then show ?thesis using h by (simp add: calc_tokenCount_def mix_of_def)
  qed
  then show "generatePayload opts = Inl SwapAddressesRequired"
    using h s by (intro generatePayload_swap_error) simp_all
next
  fix opts :: options
  assume p: "0 < calc_swapCount (config opts)"
  {
    assume "calc_tokenCount (config opts) > 0 \<and> falsy (token (opt_contracts opts))"
    then show "generatePayload opts = Inl TokenAddressRequired"
      by (simp add: generatePayload_token_error)
  }
  {
    assume "\<not> (calc_tokenCount (config opts) > 0 \<and> falsy (token (opt_contracts opts)))
          \<and> (falsy (router (opt_contracts opts)) \<or> falsy (weth (opt_contracts opts))
               \<or> falsy (token (opt_contracts opts)))"
    then show "generatePayload opts = Inl SwapAddressesRequired"
      using p generatePayload_swap_error [of opts] by blast
  }
  assume a: "\<not> falsy (token (opt_contracts opts)) \<and> \<not> falsy (router (opt_contracts opts))
          \<and> \<not> falsy (weth (opt_contracts opts))
          \<and> (\<forall>s \<in> set (senders opts). getNonce s \<noteq> None)
          \<and> feeParams (provider opts) \<noteq> None \<and> senders opts \<noteq> []"
  {
    assume e: "(0 < calc_tokenCount (config opts) \<longrightarrow>
                      encodes (provider opts)
                        (Transfer_call (tokenRecipient (provider opts))
                           (tokenAmount (config opts))))
                   \<and> (\<forall>s \<in> set (senders opts). \<forall>i. encodes (provider opts)
                         (SwapExactETHForTokens_call 0
                            [weth (opt_contracts opts), token (opt_contracts opts)] (address s)
                            (now_seconds (provider opts) i + 3600)))"
    have "\<exists>r. generatePayload opts = Inr r"
      using a e by (intro generatePayload_succeeds) simp_all
    then obtain r where r: "generatePayload opts = Inr r" by blast
    have sc: "swapCount r = calc_swapCount (config opts)"
      using r by (rule generatePayload_Inr)
    have "length (filter (\<lambda>d. txType d = SWAP) (unsignedTxs r))
        = nat (calc_swapCount (config opts))"
      using generatePayload_realized(3) [OF r] sc by simp
    moreover have "1 \<le> nat (calc_swapCount (config opts))" using p by simp
    ultimately show "\<exists>r. generatePayload opts = Inr r
        \<and> length (filter (\<lambda>d. txType d = SWAP) (unsignedTxs r))
            = nat (calc_swapCount (config opts))
        \<and> 1 \<le> length (filter (\<lambda>d. txType d = SWAP) (unsignedTxs r))"
      using r by auto
  }
  assume "\<forall>c. \<not> encodes (provider opts) c"
  then show "generatePayload opts = Inl EncodingFailed"
    using p a by (intro generatePayload_encoding_fails) simp_all
next
  show "ethTransfer mix_99_1_0 + tokenTransfer mix_99_1_0 + swap mix_99_1_0 = 100"
    "swap mix_99_1_0 = 0"
    by (simp_all add: mix_99_1_0_def)
  show "calc_swapCount (config (example_options 10 mix_99_1_0 no_contracts)) = 1"
    by (simp add: example_counts)
  show "token no_contracts = None" "router no_contracts = None" "weth no_contracts = None"
    by (simp_all add: no_contracts_def)
  show "generatePayload (example_options 10 mix_99_1_0 no_contracts) = Inl SwapAddressesRequired"
    by (rule generatePayload_swap_error)
      (simp_all add: example_counts example_options_fields example_contracts)
qed

theorem swap_remainder_errors_witness:
  "generatePayload (example_options 10 mix_67_33_0 token_only) = Inl SwapAddressesRequired
   \<and> generatePayload (example_options 10 mix_99_1_0 no_contracts) = Inl SwapAddressesRequired
   \<and> generatePayload (example_options 10 mix_67_33_0 no_contracts) = Inl TokenAddressRequired
   \<and> (\<exists>r. generatePayload (example_options 10 mix_67_33_0 all_contracts) = Inr r
         \<and> length (filter (\<lambda>d. txType d = SWAP) (unsignedTxs r)) = 1)"
proof -
  note t = swap_remainder_errors
  note general = t [THEN conjunct2, THEN conjunct2, THEN conjunct2, THEN conjunct2,
      THEN conjunct2, THEN conjunct2, THEN conjunct1, rule_format]
  note direct = t [THEN conjunct2, THEN conjunct2, THEN conjunct2, THEN conjunct2,
      THEN conjunct2, THEN conjunct2, THEN conjunct2, THEN conjunct1, rule_format]
  have pos: "0 < calc_swapCount (config (example_options 10 mix_67_33_0 cs))"
    "0 < calc_swapCount (config (example_options 10 mix_99_1_0 cs))" for cs
    by (simp_all add: example_counts)
  have a: "generatePayload (example_options 10 mix_67_33_0 token_only)
      = Inl SwapAddressesRequired"
  proof (rule general [of _ mix_67_33_0 example_deployments token_only])
    show "txMix (config (example_options 10 mix_67_33_0 token_only)) = Some mix_67_33_0
        \<and> swap mix_67_33_0 = 0 \<and> 0 \<le> tokenTransfer mix_67_33_0
        \<and> 0 < calc_swapCount (config (example_options 10 mix_67_33_0 token_only))
        \<and> setupContracts mix_67_33_0 no_contracts example_deployments = Resolves token_only
        \<and> (\<forall>a. deployToken example_deployments = Resolves a \<longrightarrow> \<not> falsy a)
        \<and> opt_contracts (example_options 10 mix_67_33_0 token_only) = token_only"
      using example_setup pos(1) example_contracts(7)
      by (simp add: example_options_def mix_67_33_0_def example_deployments_def)
  qed
  have b: "generatePayload (example_options 10 mix_99_1_0 no_contracts)
      = Inl SwapAddressesRequired"
    using direct [OF pos(2), of no_contracts, THEN conjunct2, THEN conjunct1]
    by (simp add: example_counts example_options_fields example_contracts)
  have c: "generatePayload (example_options 10 mix_67_33_0 no_contracts)
      = Inl TokenAddressRequired"
    using direct [OF pos(1), of no_contracts, THEN conjunct1]
    by (simp add: example_counts example_options_fields example_contracts)
  have d: "\<exists>r. generatePayload (example_options 10 mix_67_33_0 all_contracts) = Inr r
         \<and> length (filter (\<lambda>d. txType d = SWAP) (unsignedTxs r)) = 1"
  proof -
    let ?o = "example_options 10 mix_67_33_0 all_contracts"
    have cfg: "\<not> falsy (token (opt_contracts ?o)) \<and> \<not> falsy (router (opt_contracts ?o))
          \<and> \<not> falsy (weth (opt_contracts ?o))
          \<and> (\<forall>s \<in> set (senders ?o). getNonce s \<noteq> None)
          \<and> feeParams (provider ?o) \<noteq> None \<and> senders ?o \<noteq> []"
      by (simp add: example_options_fields example_contracts)
    have enc: "(0 < calc_tokenCount (config ?o) \<longrightarrow>
              encodes (provider ?o)
                (Transfer_call (tokenRecipient (provider ?o)) (tokenAmount (config ?o))))
           \<and> (\<forall>s \<in> set (senders ?o). \<forall>i. encodes (provider ?o)
                 (SwapExactETHForTokens_call 0 [weth (opt_contracts ?o), token (opt_contracts ?o)]
                    (address s) (now_seconds (provider ?o) i + 3600)))"
      using example_encoding(1) [of 10 mix_67_33_0 all_contracts]
        example_encoding(2) [of 10 mix_67_33_0]
      unfolding example_options_fields(1,3) by blast
    from direct [OF pos(1), of all_contracts, THEN conjunct2, THEN conjunct2, THEN mp, OF cfg,
        THEN conjunct1, THEN mp, OF enc]
    show ?thesis by (auto simp: example_counts)
  qed
  show ?thesis using a b c d by blast
qed

lemma floors_cover:
  fixes n a b :: int
  assumes "0 \<le> n" "0 \<le> a" "0 \<le> b" "a + b \<le> 100"
  shows "0 \<le> (n * a) div 100" "0 \<le> (n * b) div 100"
    "(n * a) div 100 + (n * b) div 100 \<le> n"
proof -
  have "0 \<le> n * a" "0 \<le> n * b" using assms by simp_all
  then show "0 \<le> (n * a) div 100" "0 \<le> (n * b) div 100"
    by (simp_all add: pos_imp_zdiv_nonneg_iff)
  have "n * a + n * b \<le> n * 100"
    using assms by (simp add: distrib_left [symmetric] mult_left_mono)
  then show "(n * a) div 100 + (n * b) div 100 \<le> n" by linarith
qed

lemma parseTxMix_three:
  "e + t + s \<noteq> 0 \<Longrightarrow>
   parseTxMix (Some [e, t, s]) =
     \<lparr>js_ethTransfer = Num (js_round (scaled e (e + t + s))),
      js_tokenTransfer = Num (js_round (scaled t (e + t + s))),
      js_swap = Num (js_round (scaled s (e + t + s)))\<rparr>"
  by (simp add: parseTxMix_def round_share_def Let_def)

lemma scaled_nonneg: "0 \<le> part \<Longrightarrow> part \<le> tot \<Longrightarrow> 0 < tot \<Longrightarrow> 0 \<le> js_round (scaled part tot)"
  by (intro js_round_nonneg scaled_error(2))

lemma generatePayload_counts:
  assumes "generatePayload opts = Inr r"
  shows "ethCount r = calc_ethCount (config opts) \<and> tokenCount r = calc_tokenCount (config opts)
    \<and> swapCount r = calc_swapCount (config opts)"
  using assms by (rule generatePayload_Inr) simp

lemma example_counts_100:
  "calc_ethCount (config (example_options 100 mix_1_100_0 cs)) = 1"
  "calc_tokenCount (config (example_options 100 mix_1_100_0 cs)) = 100"
  "calc_swapCount (config (example_options 100 mix_1_100_0 cs)) = - 1"
  "txCount (config (example_options n mix cs)) = n"
  by (simp_all add: calc_swapCount_def calc_ethCount_def calc_tokenCount_def mix_of_def
      example_options_def mix_1_100_0_def)

lemma rounded_thirds: "js_round (scaled 1 3) = 33"
  by code_simp

lemma rounded_half_percent: "js_round (scaled 1 200) = 1"
  by code_simp

lemma rounded_995: "js_round (scaled 199 200) = 100"
  by code_simp


section \<open>Mix normalization and realized counts\<close>

text \<open>
  C5 (as amended). For every mix of non-negative integer parts with a positive sum (below
  \<open>2\<^sup>5\<^sup>3\<close>), each normalized percentage is the proportional share rounded on its own, so
  the three are non-negative integers whose sum is 99, 100 or 101, and a mix that sums to
  100 is returned unchanged. For every payload the generator returns, the three counts it
  reports sum to exactly \<open>txCount\<close>, and the payload holds \<open>max(0, count)\<close> descriptors of
  each type; when \<open>txCount\<close> and the ETH and token percentages are non-negative and the
  two percentages sum to at most 100, no count is negative and the payload holds exactly
  \<open>txCount\<close> descriptors.
\<close>

theorem mix_normalization_and_counts:
  "(\<forall>e t s. 0 \<le> e \<and> 0 \<le> t \<and> 0 \<le> s \<and> 0 < e + t + s \<and> e + t + s < 2 ^ 53 \<longrightarrow>
      (\<exists>a b c. parseTxMix (Some [e, t, s])
                  = \<lparr>js_ethTransfer = Num a, js_tokenTransfer = Num b, js_swap = Num c\<rparr>
         \<and> 0 \<le> a \<and> 0 \<le> b \<and> 0 \<le> c \<and> 99 \<le> a + b + c \<and> a + b + c \<le> 101
         \<and> (e + t + s = 100 \<longrightarrow> a = e \<and> b = t \<and> c = s)))
   \<and> (\<forall>opts r. generatePayload opts = Inr r \<longrightarrow>
         ethCount r + tokenCount r + swapCount r = txCount (config opts)
       \<and> length (filter (\<lambda>d. txType d = ETH_TRANSFER) (unsignedTxs r)) = nat (ethCount r)
       \<and> length (filter (\<lambda>d. txType d = TOKEN_TRANSFER) (unsignedTxs r)) = nat (tokenCount r)
       \<and> length (filter (\<lambda>d. txType d = SWAP) (unsignedTxs r)) = nat (swapCount r)
       \<and> (0 \<le> txCount (config opts) \<and> 0 \<le> ethTransfer (mix_of (config opts))
            \<and> 0 \<le> tokenTransfer (mix_of (config opts))
            \<and> ethTransfer (mix_of (config opts)) + tokenTransfer (mix_of (config opts)) \<le> 100
           \<longrightarrow> 0 \<le> ethCount r \<and> 0 \<le> tokenCount r \<and> 0 \<le> swapCount r
               \<and> int (length (unsignedTxs r)) = txCount (config opts)))"
proof (intro conjI allI impI)
  fix e t s :: int
  assume h: "0 \<le> e \<and> 0 \<le> t \<and> 0 \<le> s \<and> 0 < e + t + s \<and> e + t + s < 2 ^ 53"
  define n where "n = e + t + s"
  define a where "a = js_round (scaled e n)"
  define b where "b = js_round (scaled t n)"
  define c where "c = js_round (scaled s n)"
  have n: "0 < n" "e \<le> n" "t \<le> n" "s \<le> n" using h by (simp_all add: n_def)
  have p: "parseTxMix (Some [e, t, s])
      = \<lparr>js_ethTransfer = Num a, js_tokenTransfer = Num b, js_swap = Num c\<rparr>"
    using h parseTxMix_three [of e t s] by (simp add: a_def b_def c_def n_def)
  have nn: "0 \<le> a" "0 \<le> b" "0 \<le> c"
    using h n by (simp_all add: a_def b_def c_def scaled_nonneg)
  have sum: "99 \<le> a + b + c" "a + b + c \<le> 101"
    using shares_sum [of e t s] h by (simp_all add: a_def b_def c_def n_def)
  have idn: "n = 100 \<longrightarrow> a = e \<and> b = t \<and> c = s"
    using h n share_identity by (auto simp: a_def b_def c_def)
  show "\<exists>a b c. parseTxMix (Some [e, t, s])
                  = \<lparr>js_ethTransfer = Num a, js_tokenTransfer = Num b, js_swap = Num c\<rparr>
         \<and> 0 \<le> a \<and> 0 \<le> b \<and> 0 \<le> c \<and> 99 \<le> a + b + c \<and> a + b + c \<le> 101
         \<and> (e + t + s = 100 \<longrightarrow> a = e \<and> b = t \<and> c = s)"
    using p nn sum idn unfolding n_def by blast
next
  fix opts r
  assume g: "generatePayload opts = Inr r"
  from g have c: "ethCount r = calc_ethCount (config opts)"
    "tokenCount r = calc_tokenCount (config opts)"
    "swapCount r = calc_swapCount (config opts)"
    by (auto elim: generatePayload_Inr)
  show "ethCount r + tokenCount r + swapCount r = txCount (config opts)"
    using c by (simp add: calc_swapCount_def)
  show "length (filter (\<lambda>d. txType d = ETH_TRANSFER) (unsignedTxs r)) = nat (ethCount r)"
    using g by (rule generatePayload_realized)
  show "length (filter (\<lambda>d. txType d = TOKEN_TRANSFER) (unsignedTxs r)) = nat (tokenCount r)"
    using g by (rule generatePayload_realized)
  show "length (filter (\<lambda>d. txType d = SWAP) (unsignedTxs r)) = nat (swapCount r)"
    using g by (rule generatePayload_realized)
  assume m: "0 \<le> txCount (config opts) \<and> 0 \<le> ethTransfer (mix_of (config opts))
            \<and> 0 \<le> tokenTransfer (mix_of (config opts))
            \<and> ethTransfer (mix_of (config opts)) + tokenTransfer (mix_of (config opts)) \<le> 100"
  then have f: "0 \<le> ethCount r" "0 \<le> tokenCount r" "ethCount r + tokenCount r \<le> txCount (config opts)"
    unfolding c calc_ethCount_def calc_tokenCount_def by (auto intro: floors_cover)
  then have s0: "0 \<le> swapCount r" unfolding c(3) calc_swapCount_def using c by simp
  show "0 \<le> ethCount r" "0 \<le> tokenCount r" "0 \<le> swapCount r" using f s0 by simp_all
  have "int (length (unsignedTxs r)) = int (nat (ethCount r)) + int (nat (tokenCount r)) + int (nat (swapCount r))"
    using length_by_type [of "unsignedTxs r"] generatePayload_realized [OF g] by simp
  also have "\<dots> = ethCount r + tokenCount r + swapCount r" using f s0 by simp
  also have "\<dots> = txCount (config opts)" using c by (simp add: calc_swapCount_def)
  finally show "int (length (unsignedTxs r)) = txCount (config opts)" .
qed

theorem mix_normalization_and_counts_witness:
  "(\<exists>a b c. parseTxMix (Some [1, 1, 1])
                = \<lparr>js_ethTransfer = Num a, js_tokenTransfer = Num b, js_swap = Num c\<rparr>
       \<and> 0 \<le> a \<and> 0 \<le> b \<and> 0 \<le> c \<and> 99 \<le> a + b + c \<and> a + b + c \<le> 101)
   \<and> (\<exists>r. generatePayload (example_options 10 mix_67_33_0 all_contracts) = Inr r
         \<and> ethCount r + tokenCount r + swapCount r = 10
         \<and> int (length (unsignedTxs r)) = 10)"
proof -
  let ?opts = "example_options 10 mix_67_33_0 all_contracts"
  have h: "(0::int) \<le> 1 \<and> (0::int) \<le> 1 \<and> (0::int) \<le> 1 \<and> (0::int) < 1 + 1 + 1
      \<and> (1::int) + 1 + 1 < 2 ^ 53"
    by simp
  note p1 = mix_normalization_and_counts [THEN conjunct1, rule_format, of 1 1 1, OF h]
  have "\<exists>r. generatePayload ?opts = Inr r"
    by (rule example_payload)
  then obtain r where r: "generatePayload ?opts = Inr r" by blast
  note p2 = mix_normalization_and_counts [THEN conjunct2, rule_format, of ?opts r, OF r]
  have m: "0 \<le> txCount (config ?opts) \<and> 0 \<le> ethTransfer (mix_of (config ?opts))
      \<and> 0 \<le> tokenTransfer (mix_of (config ?opts))
      \<and> ethTransfer (mix_of (config ?opts)) + tokenTransfer (mix_of (config ?opts)) \<le> 100"
    by (simp add: example_options_def mix_of_def mix_67_33_0_def)
  have "ethCount r + tokenCount r + swapCount r = 10"
    using p2 by (simp add: example_counts_100)
  moreover have "int (length (unsignedTxs r)) = 10"
    using p2 m by (simp add: example_counts_100)
  ultimately show ?thesis using p1 r by blast
qed

text \<open>
  The mix 1:1:1 does not sum to 100 and is normalized to 33:33:33, which sums to 99. The
  mix 1:199:0 is normalized to 1:100:0; with 100 transactions the counts are 1, 100 and
  \<open>-1\<close>, and the payload holds 101 descriptors.
\<close>

theorem normalized_sum_counterexample:
  "parseTxMix (Some [1, 1, 1])
     = \<lparr>js_ethTransfer = Num 33, js_tokenTransfer = Num 33, js_swap = Num 33\<rparr>
   \<and> (1::int) + 1 + 1 \<noteq> 100 \<and> (33::int) + 33 + 33 \<noteq> 100
   \<and> parseTxMix (Some [1, 199, 0])
     = \<lparr>js_ethTransfer = Num 1, js_tokenTransfer = Num 100, js_swap = Num 0\<rparr>
   \<and> txCount (config (example_options 100 mix_1_100_0 all_contracts)) = 100
   \<and> length (unsignedTxs (projr (generatePayload (example_options 100 mix_1_100_0 all_contracts))))
       = 101"
proof -
  let ?opts = "example_options 100 mix_1_100_0 all_contracts"
  have a: "parseTxMix (Some [1, 1, 1])
     = \<lparr>js_ethTransfer = Num 33, js_tokenTransfer = Num 33, js_swap = Num 33\<rparr>"
    using parseTxMix_three [of 1 1 1] by (simp add: rounded_thirds)
  have b: "parseTxMix (Some [1, 199, 0])
     = \<lparr>js_ethTransfer = Num 1, js_tokenTransfer = Num 100, js_swap = Num 0\<rparr>"
  proof -
    have "\<lfloor>(1::rat) / 2\<rfloor> = 0" by (rule floor_unique) simp_all
    then have z: "js_round (scaled 0 200) = 0" by (simp add: scaled_zero js_round_def)
    show ?thesis
      using parseTxMix_three [of 1 199 0] by (simp add: rounded_half_percent rounded_995 z)
  qed
  have "\<exists>r. generatePayload ?opts = Inr r"
    by (rule example_payload)
  then obtain r where r: "generatePayload ?opts = Inr r" by blast
  from generatePayload_counts [OF r] have c: "ethCount r = 1" "tokenCount r = 100" "swapCount r = - 1"
    by (simp_all add: example_counts_100)
  have "length (unsignedTxs r) = 101"
    using length_by_type [of "unsignedTxs r"] generatePayload_realized [OF r] c by simp
  then have "length (unsignedTxs (projr (generatePayload ?opts))) = 101"
    using r by simp
  then show ?thesis using a b by (simp add: example_counts_100)
qed

section \<open>Facts about the confirmation tracker\<close>











lemma wait_loop_mixed_step:
  assumes "pending \<noteq> []" "elapsed < timeoutMs"
  shows "wait_loop_mixed env timeoutMs k elapsed pending rs =
     wait_loop_mixed env timeoutMs (k + 1)
       (elapsed + lag env k
          + (if fst (apply_results (poll_round env k (take 100 pending)) pending rs) \<noteq> [] then 500 else 0))
       (fst (apply_results (poll_round env k (take 100 pending)) pending rs))
       (snd (apply_results (poll_round env k (take 100 pending)) pending rs))"
  using assms by (subst wait_loop_mixed.simps) (simp add: Let_def case_prod_unfold)

lemma wait_loop_mixed_stop:
  assumes "\<not> (pending \<noteq> [] \<and> elapsed < timeoutMs)"
  shows "wait_loop_mixed env timeoutMs k elapsed pending rs =
     \<lparr>receipts = rs, confirmDuration = elapsed, pending_left = pending, rounds = k\<rparr>"
  using assms by (subst wait_loop_mixed.simps) auto


lemma wait_loop_mixed_never:
  "\<forall>k h. getTransactionReceipt env k h = None \<Longrightarrow>
   receipts (wait_loop_mixed env timeoutMs k elapsed pending rs) = rs
    \<and> pending_left (wait_loop_mixed env timeoutMs k elapsed pending rs) = pending"
proof (induction env timeoutMs k elapsed pending rs rule: wait_loop_mixed.induct)
  case (1 env timeoutMs k elapsed pending rs)
  show ?case
  proof (cases "pending \<noteq> [] \<and> elapsed < timeoutMs")
    case False
    then show ?thesis by (auto simp: wait_loop_mixed_stop)
  next
    case True
    have none: "poll_round env k batch = []" for batch
      using "1.prems" by (induction batch) auto
    have ap: "apply_results (poll_round env k (take 100 pending)) pending rs = (pending, rs)"
      by (simp add: none apply_results_def)
    have step: "wait_loop_mixed env timeoutMs k elapsed pending rs
        = wait_loop_mixed env timeoutMs (k + 1) (elapsed + lag env k + 500) pending rs"
      using True wait_loop_mixed_step [of pending elapsed timeoutMs env k rs]
      by (simp add: ap)
    have "receipts (wait_loop_mixed env timeoutMs (k + 1) (elapsed + lag env k + 500) pending rs) = rs
      \<and> pending_left (wait_loop_mixed env timeoutMs (k + 1) (elapsed + lag env k + 500) pending rs) = pending"
      using "1.IH" [OF True refl refl ap [symmetric] refl "1.prems"] True by simp
    then show ?thesis unfolding step .
  qed
qed










section \<open>Confirmation polling returns partial results\<close>




section \<open>Facts about the on-chain analysis\<close>

lemma fetch_blocks_Inr:
  "fetch_blocks c ns = Inr bs \<Longrightarrow> present bs = blocks_at c ns \<and> length bs = length ns"
proof (induction ns arbitrary: bs)
  case Nil
  then show ?case by (simp add: present_def blocks_at_def)
next
  case (Cons i ns)
  then obtain b bs' where b: "getBlock c i = Resolves b" and r: "fetch_blocks c ns = Inr bs'"
    and bs: "bs = b # bs'"
    by (auto split: rpc.splits sum.splits)
  from Cons.IH [OF r] show ?case
    using b bs by (cases b) (simp_all add: present_def blocks_at_def)
qed

lemma count_simple_Inr:
  "count_simple ours good bs = Inr (v, s, t) \<Longrightarrow>
     v = length (filter (\<lambda>h. toLowerCase h \<in> set ours) (concat (map transactions (present bs))))
   \<and> s = length (filter (\<lambda>h. toLowerCase h \<in> set ours \<and> toLowerCase h \<in> set good)
                    (concat (map transactions (present bs))))
   \<and> t = length (concat (map transactions (present bs)))
   \<and> None \<notin> set bs"
proof (induction bs arbitrary: v s t)
  case Nil
  then show ?case by (simp add: present_def)
next
  case (Cons b bs)
  show ?case
  proof (cases b)
    case None
    then show ?thesis using Cons.prems by simp
  next
    case (Some x)
    then obtain v' s' t' where r: "count_simple ours good bs = Inr (v', s', t')"
      using Cons.prems by (auto split: sum.splits)
    from Cons.IH [OF r] Cons.prems Some r show ?thesis
      by (auto simp: present_def)
  qed
qed

lemma found_length:
  "length (List.map_filter (\<lambda>h. find (\<lambda>r. toLowerCase (hash r) = toLowerCase h) rs) xs)
     = length (filter (\<lambda>h. toLowerCase h \<in> set (map (\<lambda>r. toLowerCase (hash r)) rs)) xs)"
proof (induction xs)
  case Nil
  then show ?case by (simp add: List.map_filter_simps)
next
  case (Cons x xs)
  have "find (\<lambda>r. toLowerCase (hash r) = toLowerCase x) rs = None
      \<longleftrightarrow> toLowerCase x \<notin> set (map (\<lambda>r. toLowerCase (hash r)) rs)"
    by (force simp: find_None_iff image_iff)
  then show ?case using Cons
    by (cases "find (\<lambda>r. toLowerCase (hash r) = toLowerCase x) rs")
      (auto simp: List.map_filter_simps)
qed

lemma count_mixed_eq:
  "count_mixed claimed rs bs = (t, ours, v, s, rv, n) \<Longrightarrow>
     t = length (concat (map transactions (present bs)))
   \<and> ours = length (filter (\<lambda>h. toLowerCase h \<in> set claimed)
                       (concat (map transactions (present bs))))
   \<and> v = length (filter (\<lambda>h. toLowerCase h \<in> set claimed
                                \<and> toLowerCase h \<in> set (map (\<lambda>r. toLowerCase (hash r)) rs))
                    (concat (map transactions (present bs))))
   \<and> n = length (present bs)"
proof (induction bs arbitrary: t ours v s rv n)
  case Nil
  then show ?case by (simp add: present_def)
next
  case (Cons b bs)
  show ?case
  proof (cases b)
    case None
    then show ?thesis using Cons by (simp add: present_def)
  next
    case (Some x)
    obtain t' o' v' s' rv' n' where r: "count_mixed claimed rs bs = (t', o', v', s', rv', n')"
      by (metis prod_cases6)
    from Cons.IH [OF r] Cons.prems Some r show ?thesis
      by (auto simp: present_def Let_def found_length filter_filter conj_commute)
  qed
qed

lemma count_by_card:
  assumes "distinct (map f xs)"
  shows "length (filter (\<lambda>x. f x \<in> A) xs) = card (A \<inter> f ` set xs)"
proof -
  have "length (filter (\<lambda>x. f x \<in> A) xs) = length (filter (\<lambda>y. y \<in> A) (map f xs))"
    by (simp add: filter_map comp_def)
  also have "\<dots> = card (set (filter (\<lambda>y. y \<in> A) (map f xs)))"
    using assms distinct_card [of "filter (\<lambda>y. y \<in> A) (map f xs)"] distinct_filter
    by metis
  also have "set (filter (\<lambda>y. y \<in> A) (map f xs)) = A \<inter> f ` set xs" by auto
  finally show ?thesis .
qed

lemma blockNumbers_of_set: "set (blockNumbers_of rs) = blockNumber ` set rs"
  by (simp add: blockNumbers_of_def)

lemma sample_results_Inr:
  "sample_results ex c rs idxs = Inr results \<Longrightarrow>
     results = map (\<lambda>idx. check_sample ex c (rs ! idx)) idxs"
  by (induction idxs arbitrary: results) (auto split: if_splits sum.splits)

lemma sample_results_in_range:
  "(\<forall>idx \<in> set idxs. idx < length rs) \<Longrightarrow>
     sample_results ex c rs idxs = Inr (map (\<lambda>idx. check_sample ex c (rs ! idx)) idxs)"
  by (induction idxs) auto

lemma sampleIndices_in_range:
  assumes "idx \<in> set (sampleIndices len)"
  shows "idx < len"
proof -
  from assms obtain i where i: "i < min 10 len"
    and idx: "idx = nat \<lfloor>fl (fl (of_nat i / of_nat (min 10 len)) * of_nat len)\<rfloor>"
    unfolding sampleIndices_def Let_def by auto
  define s where "s = min 10 len"
  define q :: rat where "q = of_nat i / of_nat s"
  define L :: rat where "L = of_nat len"
  have s: "0 < s" "s \<le> 10" "i < s" using i by (auto simp: s_def)
  have len: "0 < len" using i by auto
  have Lpos: "0 < L" using len by (simp add: L_def)
  have q0: "0 \<le> q" by (simp add: q_def)
  have "of_nat i * 10 \<le> (9::rat) * of_nat s"
  proof -
    have "i * 10 \<le> 9 * s" using s by linarith
    then have "(of_nat (i * 10) :: rat) \<le> of_nat (9 * s)" by (rule of_nat_mono)
    then show ?thesis by simp
  qed
  then have q9: "q \<le> 9 / 10" using s by (simp add: q_def divide_simps)
  have fq: "fl q \<le> q + q / 2 ^ 53" "0 \<le> fl q"
  proof -
    show "0 \<le> fl q" using q0 by (rule fl_nonneg)
    show "fl q \<le> q + q / 2 ^ 53"
    proof (cases "q = 0")
      case True then show ?thesis by (simp add: fl_def)
    next
      case False
      then have "0 < q" using q0 by simp
      from fl_error [OF this] have "fl q - q \<le> q / 2 ^ 53" by (rule abs_le_D1)
      then show ?thesis by linarith
    qed
  qed
  define p where "p = fl q * L"
  have p0: "0 \<le> p" using fq Lpos by (simp add: p_def)
  have fp: "fl p \<le> p + p / 2 ^ 53"
  proof (cases "p = 0")
    case True then show ?thesis by (simp add: fl_def)
  next
    case False
    then have "0 < p" using p0 by simp
    from fl_error [OF this] have "fl p - p \<le> p / 2 ^ 53" by (rule abs_le_D1)
    then show ?thesis by linarith
  qed
  have "q / 2 ^ 53 \<le> q / 18" using q0 by (intro divide_left_mono) simp_all
  then have fq9: "fl q \<le> 19 / 20" using fq(1) q9 q0 by linarith
  then have "p \<le> 19 / 20 * L" using Lpos by (simp add: p_def)
  moreover have "p / 2 ^ 53 \<le> p / 38" using p0 by (intro divide_left_mono) simp_all
  ultimately have "fl p < L" using fp p0 Lpos by linarith
  moreover have "0 \<le> fl p" using p0 by (rule fl_nonneg)
  ultimately have "\<lfloor>fl p\<rfloor> < int len" "0 \<le> \<lfloor>fl p\<rfloor>"
    by (simp_all add: L_def floor_less_iff)
  then show ?thesis unfolding idx p_def q_def s_def L_def by linarith
qed

lemma analyzeBlockTPS_simple_Some:
  assumes "analyzeBlockTPS_simple verifyAll k c rs ex ms = Inr (Some a)"
  shows "blockRequests a = map (\<lambda>i. (i, False)) (blockNumbers_of rs)"
    and "ourTxCount a
          = length (filter (\<lambda>h. toLowerCase h \<in> (\<lambda>r. toLowerCase (hash r)) ` set rs)
                      (block_hashes c (blockNumbers_of rs)))"
    and "sampleResults a
          = map (\<lambda>idx. check_sample ex c (rs ! idx)) (sampleIndices (length rs))"
    and "sampleVerified a = length (filter sr_ok (sampleResults a))"
    and "sampleSize a = min 10 (length rs)"
    and "verifiedTxCount a = (if verifyAll then fullVerification k ex c rs else ourTxCount a)"
proof -
  obtain blocks v s t results where
    f: "fetch_blocks c (blockNumbers_of rs) = Inr blocks" and
    cs: "count_simple (map (\<lambda>r. toLowerCase (hash r)) rs)
          (map (\<lambda>r. toLowerCase (hash r)) (filter (\<lambda>r. status r = 1) rs)) blocks = Inr (v, s, t)" and
    sr: "sample_results ex c rs (sampleIndices (length rs)) = Inr results" and
    a: "a = \<lparr>blockRequests = map (\<lambda>i. (i, False)) (blockNumbers_of rs),
             totalBlockTxCount = t, ourTxCount = v,
             verifiedTxCount = (if verifyAll then fullVerification k ex c rs else v),
             verifiedSuccessfulCount = (if verifyAll then fullVerification k ex c rs else s),
             revertedTxCount = length (filter (\<lambda>r. status r \<noteq> 1) rs),
             receiptsCount = length rs,
             sampleVerified = length (filter sr_ok results),
             sampleSize = min 10 (length rs),
             sampleResults = results\<rparr>"
    using assms unfolding analyzeBlockTPS_simple_def Let_def
    by (simp split: if_splits sum.splits prod.splits)
  show "blockRequests a = map (\<lambda>i. (i, False)) (blockNumbers_of rs)"
    "sampleResults a = map (\<lambda>idx. check_sample ex c (rs ! idx)) (sampleIndices (length rs))"
    "sampleVerified a = length (filter sr_ok (sampleResults a))"
    "sampleSize a = min 10 (length rs)"
    "verifiedTxCount a = (if verifyAll then fullVerification k ex c rs else ourTxCount a)"
    using a sample_results_Inr [OF sr] by simp_all
  show "ourTxCount a
          = length (filter (\<lambda>h. toLowerCase h \<in> (\<lambda>r. toLowerCase (hash r)) ` set rs)
                      (block_hashes c (blockNumbers_of rs)))"
    using count_simple_Inr [OF cs] fetch_blocks_Inr [OF f] a
    by (simp add: block_hashes_def)
qed

lemma analyzeBlockTPS_mixed_Some:
  assumes "analyzeBlockTPS_mixed c rs ms = Inr (Some a)"
  defines "blockRange \<equiv> [Min (blockNumber ` set rs) .. Max (blockNumber ` set rs)]"
  shows "blockRequests a = map (\<lambda>i. (i, False)) blockRange"
    and "ourTxCount a
          = length (filter (\<lambda>h. toLowerCase h \<in> (\<lambda>m. toLowerCase (sent_hash m)) ` set ms)
                      (block_hashes c blockRange))"
    and "verifiedTxCount a
          = length (filter (\<lambda>h. toLowerCase h \<in> (\<lambda>m. toLowerCase (sent_hash m)) ` set ms
                                  \<and> toLowerCase h \<in> (\<lambda>r. toLowerCase (hash r)) ` set rs)
                      (block_hashes c blockRange))"
    and "sampleVerified a = min 10 (verifiedTxCount a)"
    and "sampleSize a = min 10 (verifiedTxCount a)"
    and "sampleResults a = []"
proof -
  from assms(1) obtain blocks t ours v s rv n where
    f: "fetch_blocks c blockRange = Inr blocks" and
    cm: "count_mixed (map (\<lambda>m. toLowerCase (sent_hash m)) ms) rs blocks = (t, ours, v, s, rv, n)" and
    a: "a = \<lparr>blockRequests = map (\<lambda>i. (i, False)) blockRange,
             totalBlockTxCount = t, ourTxCount = ours, verifiedTxCount = v,
             verifiedSuccessfulCount = s, revertedTxCount = rv, receiptsCount = length rs,
             sampleVerified = min 10 v, sampleSize = min 10 v, sampleResults = []\<rparr>"
    unfolding analyzeBlockTPS_mixed_def Let_def blockRange_def blockNumbers_of_set
    by (auto split: if_splits sum.splits prod.splits)
  show "blockRequests a = map (\<lambda>i. (i, False)) blockRange"
    "sampleVerified a = min 10 (verifiedTxCount a)"
    "sampleSize a = min 10 (verifiedTxCount a)" "sampleResults a = []"
    using a by simp_all
  show "ourTxCount a
          = length (filter (\<lambda>h. toLowerCase h \<in> (\<lambda>m. toLowerCase (sent_hash m)) ` set ms)
                      (block_hashes c blockRange))"
    "verifiedTxCount a
          = length (filter (\<lambda>h. toLowerCase h \<in> (\<lambda>m. toLowerCase (sent_hash m)) ` set ms
                                  \<and> toLowerCase h \<in> (\<lambda>r. toLowerCase (hash r)) ` set rs)
                      (block_hashes c blockRange))"
    using count_mixed_eq [OF cm] fetch_blocks_Inr [OF f] a
    by (simp_all add: block_hashes_def)
qed

lemma example_mixed_result:
  "analyzeBlockTPS_mixed example_chain example_receipts example_sent
     = Inr (Some (the (projr (analyzeBlockTPS_mixed example_chain example_receipts example_sent))))"
proof -
  have "\<not> isl (analyzeBlockTPS_mixed example_chain example_receipts example_sent)
      \<and> projr (analyzeBlockTPS_mixed example_chain example_receipts example_sent) \<noteq> None"
    by code_simp
  then show ?thesis by (metis option.collapse sum.collapse(2))
qed

lemma example_simple_result:
  "analyzeBlockTPS_simple False 200 example_chain example_receipts example_expected example_sent
     = Inr (Some (the (projr (analyzeBlockTPS_simple False 200 example_chain example_receipts
                                example_expected example_sent))))"
proof -
  have "\<not> isl (analyzeBlockTPS_simple False 200 example_chain example_receipts example_expected example_sent)
      \<and> projr (analyzeBlockTPS_simple False 200 example_chain example_receipts example_expected
                  example_sent) \<noteq> None"
    by code_simp
  then show ?thesis by (metis option.collapse sum.collapse(2))
qed

lemma example_block_numbers:
  "Min (blockNumber ` set example_receipts) = 5" "Max (blockNumber ` set example_receipts) = 7"
  "sort (remdups (map blockNumber example_receipts)) = [5, 7]"
  by (simp_all add: example_receipts_def)

lemma check_sample_reason:
  "sr_ok (check_sample ex c r) \<or>
     sr_reason (check_sample ex c r) \<in> Some ` ({''from'', ''to'', ''value'', ''status'', ''block'',
         ''not found''}
       \<union> {msg. getTransaction c (hash r) = Rejects msg \<or> fetchReceipt c (hash r) = Rejects msg})"
  unfolding check_sample_def Let_def
  by (simp split: rpc.split option.split)

lemma check_sample_to:
  assumes "getTransaction c (hash r) = Resolves (Some t)"
    and "fetchReceipt c (hash r) = Resolves (Some tr)"
    and "toLowerCase (tx_from t) \<in> set (senderAddresses ex)"
    and "map_option toLowerCase (tx_to t) \<noteq> Some (recipient ex)"
  shows "check_sample ex c r
           = \<lparr>sr_hash = short_hash (hash r), sr_ok = False, sr_reason = Some ''to''\<rparr>"
  using assms unfolding check_sample_def Let_def by simp

lemma check_sample_found:
  assumes "getTransaction c (hash r) = Resolves (Some t)
      \<and> fetchReceipt c (hash r) = Resolves (Some tr)"
  shows "check_sample ex c r =
     (if toLowerCase (tx_from t) \<in> set (senderAddresses ex)
         \<and> map_option toLowerCase (tx_to t) = Some (recipient ex)
         \<and> tx_value t = exp_value ex \<and> status tr = 1 \<and> 0 < blockNumber tr
      then \<lparr>sr_hash = short_hash (hash r), sr_ok = True, sr_reason = None\<rparr>
      else \<lparr>sr_hash = short_hash (hash r), sr_ok = False,
             sr_reason = Some (if toLowerCase (tx_from t) \<notin> set (senderAddresses ex) then ''from''
                               else if map_option toLowerCase (tx_to t) \<noteq> Some (recipient ex)
                                 then ''to''
                               else if tx_value t \<noteq> exp_value ex then ''value''
                               else if status tr \<noteq> 1 then ''status'' else ''block'')\<rparr>)"
  using assms unfolding check_sample_def Let_def by simp

lemma example_sample_indices: "sampleIndices 2 = [0, 1]"
  by code_simp

section \<open>Blocks fetched and hashes counted\<close>

text \<open>
  C7. Both drivers request hash lists only: every call is \<^verbatim>\<open>getBlock(i, false)\<close>. The mixed
  driver requests every block from the least to the greatest block number of the receipts;
  it counts as ours each occurrence, in the hash lists of the blocks that exist in that
  range, of a hash (compared in lower case) that was sent, and as verified each such
  occurrence whose receipt is also among the receipts. The single-type driver requests only
  the distinct block numbers of the receipts, in ascending order, and counts the receipts'
  hashes in those blocks. When no hash occurs twice in the fetched lists, each count is the
  number of claimed hashes that occur in some fetched list. The single-type driver returns
  this count as its verified count unless \<^verbatim>\<open>config.verifyAll\<close> is set; then it returns the
  number of receipts that pass the full verification, which is 0 when the setting of
  concurrent requests gives no worker.
\<close>

theorem block_inclusion_fetch_and_count:
  "(\<forall>a. analyzeBlockTPS_mixed c rs ms = Inr (Some a) \<longrightarrow>
       blockRequests a
         = map (\<lambda>i. (i, False)) [Min (blockNumber ` set rs) .. Max (blockNumber ` set rs)]
     \<and> ourTxCount a
         = length (filter (\<lambda>h. toLowerCase h \<in> (\<lambda>m. toLowerCase (sent_hash m)) ` set ms)
             (block_hashes c [Min (blockNumber ` set rs) .. Max (blockNumber ` set rs)]))
     \<and> verifiedTxCount a
         = length (filter (\<lambda>h. toLowerCase h \<in> (\<lambda>m. toLowerCase (sent_hash m)) ` set ms
                                 \<and> toLowerCase h \<in> (\<lambda>r. toLowerCase (hash r)) ` set rs)
             (block_hashes c [Min (blockNumber ` set rs) .. Max (blockNumber ` set rs)]))
     \<and> (distinct (map toLowerCase
            (block_hashes c [Min (blockNumber ` set rs) .. Max (blockNumber ` set rs)]))
          \<longrightarrow> ourTxCount a
               = card ((\<lambda>m. toLowerCase (sent_hash m)) ` set ms
                       \<inter> toLowerCase ` set (block_hashes c
                           [Min (blockNumber ` set rs) .. Max (blockNumber ` set rs)]))))
   \<and> (\<forall>a. analyzeBlockTPS_simple verifyAll concurrentRequests c rs ex ms = Inr (Some a) \<longrightarrow>
       blockRequests a = map (\<lambda>i. (i, False)) (sort (remdups (map blockNumber rs)))
     \<and> ourTxCount a
         = length (filter (\<lambda>h. toLowerCase h \<in> (\<lambda>r. toLowerCase (hash r)) ` set rs)
             (block_hashes c (sort (remdups (map blockNumber rs)))))
     \<and> (distinct (map toLowerCase (block_hashes c (sort (remdups (map blockNumber rs)))))
          \<longrightarrow> ourTxCount a
               = card ((\<lambda>r. toLowerCase (hash r)) ` set rs
                       \<inter> toLowerCase ` set (block_hashes c
                           (sort (remdups (map blockNumber rs))))))
     \<and> (\<not> verifyAll \<longrightarrow> verifiedTxCount a = ourTxCount a)
     \<and> (verifyAll \<longrightarrow>
          verifiedTxCount a
            = (if 0 < min concurrentRequests (int (length rs))
               then length (filter (fully_verified ex c) rs) else 0)))"
proof (intro conjI allI impI)
  fix a
  assume m: "analyzeBlockTPS_mixed c rs ms = Inr (Some a)"
  let ?range = "[Min (blockNumber ` set rs) .. Max (blockNumber ` set rs)]"
  show "blockRequests a = map (\<lambda>i. (i, False)) ?range"
    using analyzeBlockTPS_mixed_Some(1) [OF m] .
  show o: "ourTxCount a
         = length (filter (\<lambda>h. toLowerCase h \<in> (\<lambda>m. toLowerCase (sent_hash m)) ` set ms)
             (block_hashes c ?range))"
    using analyzeBlockTPS_mixed_Some(2) [OF m] .
  show "verifiedTxCount a
         = length (filter (\<lambda>h. toLowerCase h \<in> (\<lambda>m. toLowerCase (sent_hash m)) ` set ms
                                 \<and> toLowerCase h \<in> (\<lambda>r. toLowerCase (hash r)) ` set rs)
             (block_hashes c ?range))"
    using analyzeBlockTPS_mixed_Some(3) [OF m] .
  assume "distinct (map toLowerCase (block_hashes c ?range))"
  then show "ourTxCount a
       = card ((\<lambda>m. toLowerCase (sent_hash m)) ` set ms
               \<inter> toLowerCase ` set (block_hashes c ?range))"
    unfolding o by (rule count_by_card)
next
  fix a
  assume s: "analyzeBlockTPS_simple verifyAll concurrentRequests c rs ex ms = Inr (Some a)"
  let ?ns = "sort (remdups (map blockNumber rs))"
  show "blockRequests a = map (\<lambda>i. (i, False)) ?ns"
    using analyzeBlockTPS_simple_Some(1) [OF s] by (simp add: blockNumbers_of_def)
  show v: "ourTxCount a
         = length (filter (\<lambda>h. toLowerCase h \<in> (\<lambda>r. toLowerCase (hash r)) ` set rs)
             (block_hashes c ?ns))"
    using analyzeBlockTPS_simple_Some(2) [OF s] by (simp add: blockNumbers_of_def)
  show "verifiedTxCount a = ourTxCount a" if "\<not> verifyAll"
    using analyzeBlockTPS_simple_Some(6) [OF s] that by simp
  show "verifiedTxCount a
      = (if 0 < min concurrentRequests (int (length rs))
         then length (filter (fully_verified ex c) rs) else 0)" if "verifyAll"
    using analyzeBlockTPS_simple_Some(6) [OF s] that
    by (simp add: fullVerification_def Let_def)
  assume "distinct (map toLowerCase (block_hashes c ?ns))"
  then show "ourTxCount a
       = card ((\<lambda>r. toLowerCase (hash r)) ` set rs \<inter> toLowerCase ` set (block_hashes c ?ns))"
    unfolding v by (rule count_by_card)
qed

theorem block_inclusion_fetch_and_count_witness:
  "blockRequests (the (projr (analyzeBlockTPS_mixed example_chain example_receipts example_sent)))
     = [(5, False), (6, False), (7, False)]
   \<and> blockRequests (the (projr (analyzeBlockTPS_simple False 200 example_chain example_receipts
                                  example_expected example_sent)))
     = [(5, False), (7, False)]"
proof -
  note t = block_inclusion_fetch_and_count [where c = example_chain and rs = example_receipts
      and ms = example_sent and ex = example_expected and verifyAll = False
      and concurrentRequests = 200]
  note m = t [THEN conjunct1, rule_format, OF example_mixed_result, THEN conjunct1]
  note s = t [THEN conjunct2, rule_format, OF example_simple_result, THEN conjunct1]
  have "[5 .. 7] = [5, 6, 7 :: int]" by code_simp
  then show ?thesis using m s by (simp add: example_block_numbers)
qed

theorem gap_block_not_fetched_counterexample:
  "map blockNumber example_receipts = [5, 7]
   \<and> getBlock example_chain 6
       = Resolves (Some \<lparr>number = 6, timestamp = 101, transactions = [''0xcc'']\<rparr>)
   \<and> map_option blockRequests (projr (analyzeBlockTPS_simple False 200 example_chain example_receipts
          example_expected example_sent)) = Some [(5, False), (7, False)]"
  by code_simp

section \<open>Reasons of the sample check\<close>

text \<open>
  C6. In the single-type driver's sample check, a transaction that is found with its
  receipt, whose sender is one of the expected senders, whose receipt has status 1 and whose
  recipient is not the expected one gets the reason \<open>to\<close> and is not counted as verified.
  Every row that is not verified has a reason: one of \<open>from\<close>, \<open>to\<close>, \<open>value\<close>, \<open>status\<close>,
  \<open>block\<close>, \<open>not found\<close>, or the message of the rejected fetch. The rows are the checks of
  the receipts at the sample indices, which all lie inside the receipts; the number
  reported as verified is the number of verified rows, out of \<open>min 10\<close> of the number of
  receipts. The mixed driver builds no rows: it reports \<open>min 10\<close> of its verified count both
  as the number verified and as the sample size. In the single-type driver a row is
  verified exactly when the transaction and its receipt are found and sender, recipient,
  value, status and block number all pass; a row that is not verified names the first check
  that fails, in that order, \<open>not found\<close> when the transaction or the receipt is missing,
  and the message of the fetch that was rejected; a row has no reason exactly when it is
  verified.
\<close>

theorem sample_mismatch_reason:
  "(getTransaction c (hash r) = Resolves (Some t)
      \<and> fetchReceipt c (hash r) = Resolves (Some tr)
      \<and> toLowerCase (tx_from t) \<in> set (senderAddresses ex)
      \<and> status tr = 1
      \<and> map_option toLowerCase (tx_to t) \<noteq> Some (recipient ex)
    \<longrightarrow> sr_reason (check_sample ex c r) = Some ''to'' \<and> \<not> sr_ok (check_sample ex c r))
   \<and> (\<not> sr_ok (check_sample ex c r)
    \<longrightarrow> sr_reason (check_sample ex c r) \<in> Some ` ({''from'', ''to'', ''value'', ''status'',
           ''block'', ''not found''}
         \<union> {msg. getTransaction c (hash r) = Rejects msg
                  \<or> fetchReceipt c (hash r) = Rejects msg}))
   \<and> (\<forall>a. analyzeBlockTPS_simple verifyAll concurrentRequests c rs ex ms = Inr (Some a) \<longrightarrow>
         sampleResults a
           = map (\<lambda>idx. check_sample ex c (rs ! idx)) (sampleIndices (length rs))
       \<and> sampleVerified a = length (filter sr_ok (sampleResults a))
       \<and> sampleSize a = min 10 (length rs)
       \<and> (\<forall>idx \<in> set (sampleIndices (length rs)). idx < length rs))
   \<and> (\<forall>a. analyzeBlockTPS_mixed c rs ms = Inr (Some a) \<longrightarrow>
         sampleResults a = []
       \<and> sampleVerified a = min 10 (verifiedTxCount a)
       \<and> sampleSize a = min 10 (verifiedTxCount a))
   \<and> (getTransaction c (hash r) = Resolves (Some t)
        \<and> fetchReceipt c (hash r) = Resolves (Some tr) \<longrightarrow>
         (sr_ok (check_sample ex c r) \<longleftrightarrow>
            toLowerCase (tx_from t) \<in> set (senderAddresses ex)
            \<and> map_option toLowerCase (tx_to t) = Some (recipient ex)
            \<and> tx_value t = exp_value ex \<and> status tr = 1 \<and> 0 < blockNumber tr)
       \<and> (toLowerCase (tx_from t) \<notin> set (senderAddresses ex)
            \<longrightarrow> sr_reason (check_sample ex c r) = Some ''from'')
       \<and> (toLowerCase (tx_from t) \<in> set (senderAddresses ex)
            \<and> map_option toLowerCase (tx_to t) \<noteq> Some (recipient ex)
            \<longrightarrow> sr_reason (check_sample ex c r) = Some ''to'')
       \<and> (toLowerCase (tx_from t) \<in> set (senderAddresses ex)
            \<and> map_option toLowerCase (tx_to t) = Some (recipient ex)
            \<and> tx_value t \<noteq> exp_value ex
            \<longrightarrow> sr_reason (check_sample ex c r) = Some ''value'')
       \<and> (toLowerCase (tx_from t) \<in> set (senderAddresses ex)
            \<and> map_option toLowerCase (tx_to t) = Some (recipient ex)
            \<and> tx_value t = exp_value ex \<and> status tr \<noteq> 1
            \<longrightarrow> sr_reason (check_sample ex c r) = Some ''status'')
       \<and> (toLowerCase (tx_from t) \<in> set (senderAddresses ex)
            \<and> map_option toLowerCase (tx_to t) = Some (recipient ex)
            \<and> tx_value t = exp_value ex \<and> status tr = 1 \<and> \<not> 0 < blockNumber tr
            \<longrightarrow> sr_reason (check_sample ex c r) = Some ''block''))
   \<and> ((getTransaction c (hash r) = Resolves None \<and> (\<exists>x. fetchReceipt c (hash r) = Resolves x))
        \<or> ((\<exists>x. getTransaction c (hash r) = Resolves x) \<and> fetchReceipt c (hash r) = Resolves None)
       \<longrightarrow> \<not> sr_ok (check_sample ex c r)
           \<and> sr_reason (check_sample ex c r) = Some ''not found'')
   \<and> (getTransaction c (hash r) = Rejects message
        \<or> ((\<exists>x. getTransaction c (hash r) = Resolves x) \<and> fetchReceipt c (hash r) = Rejects message)
       \<longrightarrow> \<not> sr_ok (check_sample ex c r) \<and> sr_reason (check_sample ex c r) = Some message)
   \<and> (sr_ok (check_sample ex c r) \<longleftrightarrow> sr_reason (check_sample ex c r) = None)
   \<and> sr_hash (check_sample ex c r) = short_hash (hash r)"
proof (intro conjI allI impI ballI)
  assume "getTransaction c (hash r) = Resolves (Some t)
      \<and> fetchReceipt c (hash r) = Resolves (Some tr)
      \<and> toLowerCase (tx_from t) \<in> set (senderAddresses ex)
      \<and> status tr = 1
      \<and> map_option toLowerCase (tx_to t) \<noteq> Some (recipient ex)"
  then have "check_sample ex c r
           = \<lparr>sr_hash = short_hash (hash r), sr_ok = False, sr_reason = Some ''to''\<rparr>"
    by (elim conjE) (rule check_sample_to; assumption)
  then show "sr_reason (check_sample ex c r) = Some ''to''" "\<not> sr_ok (check_sample ex c r)"
    by simp_all
next
  assume "\<not> sr_ok (check_sample ex c r)"
  then show "sr_reason (check_sample ex c r) \<in> Some ` ({''from'', ''to'', ''value'', ''status'',
           ''block'', ''not found''}
         \<union> {msg. getTransaction c (hash r) = Rejects msg
                  \<or> fetchReceipt c (hash r) = Rejects msg})"
    using check_sample_reason [of ex c r] by blast
next
  fix a
  assume s: "analyzeBlockTPS_simple verifyAll concurrentRequests c rs ex ms = Inr (Some a)"
  show "sampleResults a
           = map (\<lambda>idx. check_sample ex c (rs ! idx)) (sampleIndices (length rs))"
    "sampleVerified a = length (filter sr_ok (sampleResults a))"
    "sampleSize a = min 10 (length rs)"
    using analyzeBlockTPS_simple_Some(3-5) [OF s] .
next
  fix a idx
  assume "idx \<in> set (sampleIndices (length rs))"
  then show "idx < length rs" by (rule sampleIndices_in_range)
next
  fix a
  assume m: "analyzeBlockTPS_mixed c rs ms = Inr (Some a)"
  show "sampleResults a = []" "sampleVerified a = min 10 (verifiedTxCount a)"
    "sampleSize a = min 10 (verifiedTxCount a)"
    using analyzeBlockTPS_mixed_Some(4-6) [OF m] by simp_all
next
  assume f: "getTransaction c (hash r) = Resolves (Some t)
        \<and> fetchReceipt c (hash r) = Resolves (Some tr)"
  note cs = check_sample_found [of c r t tr ex]
  show "sr_ok (check_sample ex c r) \<longleftrightarrow>
            toLowerCase (tx_from t) \<in> set (senderAddresses ex)
            \<and> map_option toLowerCase (tx_to t) = Some (recipient ex)
            \<and> tx_value t = exp_value ex \<and> status tr = 1 \<and> 0 < blockNumber tr"
    using f by (simp add: cs)
  show "sr_reason (check_sample ex c r) = Some ''from''"
    if "toLowerCase (tx_from t) \<notin> set (senderAddresses ex)"
    using f that by (simp add: cs)
  show "sr_reason (check_sample ex c r) = Some ''to''"
    if "toLowerCase (tx_from t) \<in> set (senderAddresses ex)
            \<and> map_option toLowerCase (tx_to t) \<noteq> Some (recipient ex)"
    using f that by (simp add: cs)
  show "sr_reason (check_sample ex c r) = Some ''value''"
    if "toLowerCase (tx_from t) \<in> set (senderAddresses ex)
            \<and> map_option toLowerCase (tx_to t) = Some (recipient ex)
            \<and> tx_value t \<noteq> exp_value ex"
    using f that by (simp add: cs)
  show "sr_reason (check_sample ex c r) = Some ''status''"
    if "toLowerCase (tx_from t) \<in> set (senderAddresses ex)
            \<and> map_option toLowerCase (tx_to t) = Some (recipient ex)
            \<and> tx_value t = exp_value ex \<and> status tr \<noteq> 1"
    using f that by (simp add: cs)
  show "sr_reason (check_sample ex c r) = Some ''block''"
    if "toLowerCase (tx_from t) \<in> set (senderAddresses ex)
            \<and> map_option toLowerCase (tx_to t) = Some (recipient ex)
            \<and> tx_value t = exp_value ex \<and> status tr = 1 \<and> \<not> 0 < blockNumber tr"
    using f that by (simp add: cs)
next
  assume "(getTransaction c (hash r) = Resolves None \<and> (\<exists>x. fetchReceipt c (hash r) = Resolves x))
        \<or> ((\<exists>x. getTransaction c (hash r) = Resolves x) \<and> fetchReceipt c (hash r) = Resolves None)"
  then have "check_sample ex c r
      = \<lparr>sr_hash = short_hash (hash r), sr_ok = False, sr_reason = Some ''not found''\<rparr>"
    by (auto simp: check_sample_def split: option.splits)
  then show "\<not> sr_ok (check_sample ex c r)"
    "sr_reason (check_sample ex c r) = Some ''not found''"
    by simp_all
next
  assume "getTransaction c (hash r) = Rejects message
        \<or> ((\<exists>x. getTransaction c (hash r) = Resolves x) \<and> fetchReceipt c (hash r) = Rejects message)"
  then have "check_sample ex c r
      = \<lparr>sr_hash = short_hash (hash r), sr_ok = False, sr_reason = Some message\<rparr>"
    by (auto simp: check_sample_def)
  then show "\<not> sr_ok (check_sample ex c r)" "sr_reason (check_sample ex c r) = Some message"
    by simp_all
next
  show "sr_ok (check_sample ex c r) \<longleftrightarrow> sr_reason (check_sample ex c r) = None"
    unfolding check_sample_def Let_def by (simp split: rpc.split option.split)
  show "sr_hash (check_sample ex c r) = short_hash (hash r)"
    unfolding check_sample_def Let_def by (simp split: rpc.split option.split)
qed

theorem sample_mismatch_reason_witness:
  "map sr_reason (sampleResults (the (projr (analyzeBlockTPS_simple False 200 example_chain
       example_receipts example_expected example_sent)))) = [Some ''to'', None]
   \<and> sampleVerified (the (projr (analyzeBlockTPS_simple False 200 example_chain example_receipts
       example_expected example_sent))) = 1
   \<and> sampleSize (the (projr (analyzeBlockTPS_simple False 200 example_chain example_receipts
       example_expected example_sent))) = 2"
proof -
  note t = sample_mismatch_reason [where c = example_chain and r = "example_receipts ! 0"
      and t = "\<lparr>tx_from = ''0xA1'', tx_to = Some ''0xBAD'', tx_value = 10\<rparr>"
      and tr = "\<lparr>hash = ''0xaa'', blockNumber = 5, status = 1\<rparr>"
      and ex = example_expected and rs = example_receipts and ms = example_sent
      and verifyAll = False and concurrentRequests = 200]
  note s = t [THEN conjunct2, THEN conjunct2, THEN conjunct1, rule_format,
      OF example_simple_result]
  have to: "sr_reason (check_sample example_expected example_chain (example_receipts ! 0))
      = Some ''to''"
    by (rule t [THEN conjunct1, THEN mp, THEN conjunct1]) code_simp
  have ok: "check_sample example_expected example_chain (example_receipts ! 1)
      = \<lparr>sr_hash = short_hash ''0xbb'', sr_ok = True, sr_reason = None\<rparr>"
    by code_simp
  have "\<not> sr_ok (check_sample example_expected example_chain (example_receipts ! 0))"
    by code_simp
  moreover have "length example_receipts = 2" by (simp add: example_receipts_def)
  ultimately show ?thesis
    using s to ok by (simp add: example_sample_indices)
qed

theorem unchecked_sample_counterexample:
  "getTransaction example_chain ''0xaa''
       = Resolves (Some \<lparr>tx_from = ''0xA1'', tx_to = Some ''0xBAD'', tx_value = 10\<rparr>)
   \<and> recipient example_expected = ''0xe7''
   \<and> map_option (\<lambda>a. (sampleVerified a, sampleSize a, sampleResults a))
        (projr (analyzeBlockTPS_mixed example_chain example_receipts example_sent))
       = Some (2, 2, [])"
  by code_simp

section \<open>Facts about the broadcaster\<close>

lemma count_error_fields [simp]:
  "nextIndex (count_error c st) = nextIndex st"
  "workers (count_error c st) = workers st"
  "posted (count_error c st) = posted st"
  "successCount (count_error c st) = successCount st"
  "errorCount (count_error c st) = errorCount st"
  "pool_txHashes (count_error c st) = pool_txHashes st"
  "firstError (count_error c st) = firstError st"
  by (simp_all add: count_error_def)

lemma keep_example_fields [simp]:
  "nextIndex (keep_example c x st) = nextIndex st"
  "workers (keep_example c x st) = workers st"
  "posted (keep_example c x st) = posted st"
  "successCount (keep_example c x st) = successCount st"
  "errorCount (keep_example c x st) = errorCount st"
  "pool_txHashes (keep_example c x st) = pool_txHashes st"
  "firstError (keep_example c x st) = firstError st"
  by (simp_all add: keep_example_def)

lemma note_first_fields [simp]:
  "nextIndex (note_first m st) = nextIndex st"
  "workers (note_first m st) = workers st"
  "posted (note_first m st) = posted st"
  "successCount (note_first m st) = successCount st"
  "errorCount (note_first m st) = errorCount st"
  "pool_txHashes (note_first m st) = pool_txHashes st"
  "firstError (note_first m st) = (if truthy (firstError st) then firstError st else m)"
  by (simp_all add: note_first_def)

lemma caught_simple_fields [simp]:
  "nextIndex (caught_simple m st) = nextIndex st"
  "workers (caught_simple m st) = workers st"
  "posted (caught_simple m st) = posted st"
  "successCount (caught_simple m st) = successCount st"
  "errorCount (caught_simple m st) = errorCount st + 1"
  "pool_txHashes (caught_simple m st) = pool_txHashes st"
  "firstError (caught_simple m st)
     = (if truthy (firstError st) then firstError st
        else JString (if m = [] then ''unknown error'' else m))"
  by (simp_all add: caught_simple_def Let_def)

lemma caught_mixed_fields [simp]:
  "nextIndex (caught_mixed m st) = nextIndex st"
  "workers (caught_mixed m st) = workers st"
  "posted (caught_mixed m st) = posted st"
  "successCount (caught_mixed m st) = successCount st"
  "errorCount (caught_mixed m st) = errorCount st + 1"
  "pool_txHashes (caught_mixed m st) = pool_txHashes st"
  "firstError (caught_mixed m st) = (if truthy (firstError st) then firstError st else JString m)"
  by (simp_all add: caught_mixed_def Let_def)

lemma record_accepted:
  assumes "truthy result"
  shows "record_simple e (Body result m) st
           = st\<lparr>pool_txHashes := pool_txHashes st @ [(accept e result)\<lparr>acc_txType := None\<rparr>],
                successCount := successCount st + 1\<rparr>"
    and "record_mixed e (Body result m) st
           = st\<lparr>successCount := successCount st + 1,
                pool_txHashes := pool_txHashes st @ [accept e result]\<rparr>"
  using assms by (simp_all add: record_simple_def record_mixed_def)

lemma record_rejected:
  assumes "\<not> truthy result" "or_default m ''unknown error'' = JString s"
    "or_default m ''Unknown error'' = JString s'"
  shows "record_simple e (Body result m) st
           = (let st1 = note_first (JString s) st;
                  errorType = categorizeError_simple (Some s);
                  st2 = count_error errorType st1;
                  st3 = keep_example errorType (take 100 s) st2
              in st3\<lparr>errorCount := errorCount st3 + 1\<rparr>)"
    and "record_mixed e (Body result m) st
           = (let st1 = st\<lparr>errorCount := errorCount st + 1\<rparr>;
                  errorType = categorizeError (Some s');
                  st2 = count_error errorType st1;
                  st3 = (if errorExamples st2 errorType = None
                         then st2\<lparr>errorExamples := (errorExamples st2)(errorType \<mapsto> s')\<rparr>
                         else st2)
              in note_first (JString s') st3)"
  using assms by (simp_all add: record_simple_def record_mixed_def Let_def)

lemma record_threw:
  "record_simple e (Throws m) st = caught_simple m st"
  "record_mixed e (Throws m) st = caught_mixed m st"
  by (simp_all add: record_simple_def record_mixed_def)

lemma or_default_string:
  assumes "\<not> truthy m \<or> is_string m"
  shows "\<exists>s. or_default m d = JString s"
  using assms by (cases m) (simp_all add: or_default_def is_string_def)

lemma record_outcome_frame:
  "nextIndex (record_outcome d e r st) = nextIndex st"
  "workers (record_outcome d e r st) = workers st"
  "posted (record_outcome d e r st) = posted st"
proof -
  have "nextIndex (record_simple e r st) = nextIndex st \<and> workers (record_simple e r st) = workers st
      \<and> posted (record_simple e r st) = posted st"
    unfolding record_simple_def Let_def by (simp split: reply.split json.split)
  moreover have "nextIndex (record_mixed e r st) = nextIndex st
      \<and> workers (record_mixed e r st) = workers st \<and> posted (record_mixed e r st) = posted st"
    unfolding record_mixed_def Let_def by (simp split: reply.split json.split)
  ultimately show "nextIndex (record_outcome d e r st) = nextIndex st"
    "workers (record_outcome d e r st) = workers st"
    "posted (record_outcome d e r st) = posted st"
    by (simp_all add: record_outcome_def split: driver.split)
qed

lemma record_outcome_effect:
  assumes "conforming r"
  shows "successCount (record_outcome d e r st) = successCount st + (if accepts r then 1 else 0)"
    and "errorCount (record_outcome d e r st) = errorCount st + (if accepts r then 0 else 1)"
    and "pool_txHashes (record_outcome d e r st)
           = pool_txHashes st @ (if accepts r then [entry d e r] else [])"
    and "\<not> truthy (firstError st) \<or> is_string (firstError st) \<Longrightarrow>
           \<not> truthy (firstError (record_outcome d e r st))
           \<or> is_string (firstError (record_outcome d e r st))"
proof -
  let ?P = "\<lambda>st'. successCount st' = successCount st + (if accepts r then 1 else 0)
      \<and> errorCount st' = errorCount st + (if accepts r then 0 else 1)
      \<and> (\<not> truthy (firstError st) \<or> is_string (firstError st) \<longrightarrow>
           \<not> truthy (firstError st') \<or> is_string (firstError st'))"
  have "?P (record_simple e r st) \<and> ?P (record_mixed e r st)
      \<and> pool_txHashes (record_simple e r st)
           = pool_txHashes st @ (if accepts r then [entry SingleType e r] else [])
      \<and> pool_txHashes (record_mixed e r st)
           = pool_txHashes st @ (if accepts r then [entry Mixed e r] else [])"
  proof (cases r)
    case (Throws m)
    then show ?thesis by (simp add: record_threw accepts_def is_string_def)
  next
    case (Body result m)
    show ?thesis
    proof (cases "truthy result")
      case True
      then show ?thesis
        using Body by (simp add: record_accepted accepts_def entry_def result_of_def)
    next
      case False
      then have "\<not> truthy m \<or> is_string m" using assms Body by (simp add: conforming_def)
      then obtain s s' where "or_default m ''unknown error'' = JString s"
        "or_default m ''Unknown error'' = JString s'"
        using or_default_string by blast
      then show ?thesis
        using Body False
        by (simp add: record_rejected [where s = s and s' = s'] accepts_def Let_def is_string_def)
    qed
  qed
  then show "successCount (record_outcome d e r st) = successCount st + (if accepts r then 1 else 0)"
    "errorCount (record_outcome d e r st) = errorCount st + (if accepts r then 0 else 1)"
    "pool_txHashes (record_outcome d e r st)
           = pool_txHashes st @ (if accepts r then [entry d e r] else [])"
    "\<not> truthy (firstError st) \<or> is_string (firstError st) \<Longrightarrow>
           \<not> truthy (firstError (record_outcome d e r st))
           \<or> is_string (firstError (record_outcome d e r st))"
    by (auto simp add: record_outcome_def split: driver.split)
qed


lemma awaiting_of_append: "awaiting_of (ws @ vs) = awaiting_of ws @ awaiting_of vs"
  by (induction ws rule: awaiting_of.induct) simp_all

lemma awaiting_of_update:
  "w < length ws \<Longrightarrow> ws ! w = Awaiting idx \<Longrightarrow>
     mset (awaiting_of (ws[w := x])) + {#idx#} = mset (awaiting_of ws) + mset (awaiting_of [x])"
proof (induction ws arbitrary: w rule: awaiting_of.induct)
  case 1
  then show ?case by simp
next
  case (2 i ws)
  then show ?case by (cases w; cases x) simp_all
next
  case (3 ws)
  then show ?case by (cases w; cases x) simp_all
qed

lemma awaiting_of_mem: "w < length ws \<Longrightarrow> ws ! w = Awaiting idx \<Longrightarrow> idx \<in> set (awaiting_of ws)"
proof (induction ws arbitrary: w rule: awaiting_of.induct)
  case 1
  then show ?case by simp
next
  case (2 i ws)
  then show ?case by (cases w) simp_all
next
  case (3 ws)
  then show ?case by (cases w) simp_all
qed

lemma awaiting_of_settled: "list_all (\<lambda>w. w = Finished) ws \<Longrightarrow> awaiting_of ws = []"
  by (induction ws rule: awaiting_of.induct) simp_all

lemma unsettled_worker:
  "\<not> list_all (\<lambda>w. w = Finished) ws \<Longrightarrow> \<exists>w idx. w < length ws \<and> ws ! w = Awaiting idx"
proof -
  assume "\<not> list_all (\<lambda>w. w = Finished) ws"
  then obtain x where "x \<in> set ws" "x \<noteq> Finished" by (auto simp: list_all_iff)
  then obtain w where "w < length ws" "ws ! w = x" by (auto simp: in_set_conv_nth)
  then show ?thesis using \<open>x \<noteq> Finished\<close> by (cases x) auto
qed

lemma empty_pool_inv: "pool_inv d signedTxs endpoint [] empty_pool"
  by (simp add: pool_inv_def empty_pool_def awaited_def)

lemma spawn_inv:
  assumes "pool_inv d signedTxs endpoint [] st"
  shows "pool_inv d signedTxs endpoint [] (spawn (length signedTxs) st)"
  using assms
  by (auto simp: pool_inv_def spawn_def claim_next_def awaited_def awaiting_of_append
      atLeast0_lessThan_Suc)

lemma spawn_length: "length (workers (spawn n st)) = Suc (length (workers st))"
  by (simp add: spawn_def claim_next_def)

lemma empty_pool_workers: "workers empty_pool = []"
  by (simp add: empty_pool_def)

lemma start_workers_inv:
  "pool_inv d signedTxs endpoint [] (start_workers (length signedTxs) k)"
  "length (workers (start_workers (length signedTxs) k)) = nat k"
proof -
  have "pool_inv d signedTxs endpoint [] ((spawn (length signedTxs) ^^ m) empty_pool)
      \<and> length (workers ((spawn (length signedTxs) ^^ m) empty_pool)) = m" for m
    by (induction m) (simp_all add: empty_pool_inv spawn_inv spawn_length empty_pool_workers)
  then show "pool_inv d signedTxs endpoint [] (start_workers (length signedTxs) k)"
    "length (workers (start_workers (length signedTxs) k)) = nat k"
    by (simp_all add: start_workers_def)
qed

lemma deliver_inv:
  assumes inv: "pool_inv d signedTxs endpoint finished st"
    and conf: "\<forall>i < length signedTxs. conforming (endpoint i)"
    and del: "deliver d signedTxs endpoint w st = Some st'"
  shows "\<exists>idx. idx < length signedTxs \<and> pool_inv d signedTxs endpoint (finished @ [idx]) st'"
    and "length (workers st') = length (workers st)"
proof -
  from del obtain idx where w: "w < length (workers st)" "workers st ! w = Awaiting idx"
    by (auto simp: deliver_def split: if_splits worker.splits)
  define st1 where "st1 = record_outcome d (signedTxs ! idx) (endpoint idx) st"
  from awaiting_of_mem [OF w] have "idx \<in># mset (awaited st) + mset finished"
    by (simp add: awaited_def)
  then have "idx \<in> set [0 ..< nextIndex st]"
    using inv unfolding pool_inv_def by (metis set_mset_mset)
  then have idx: "idx < length signedTxs" using inv by (simp add: pool_inv_def)
  then have c: "conforming (endpoint idx)" using conf by simp
  note fr = record_outcome_frame [of d "signedTxs ! idx" "endpoint idx" st, folded st1_def]
  note ef = record_outcome_effect [OF c, where d = d and e = "signedTxs ! idx" and st = st,
      folded st1_def]
  have st': "st' = (case claim_next (length signedTxs) st1 of
      (w', s) \<Rightarrow> s\<lparr>workers := (workers s)[w := w']\<rparr>)"
    using del w by (simp add: deliver_def st1_def split: prod.splits)
  have aw: "mset (awaiting_of ((workers st)[w := x])) + {#idx#} + mset finished
      = mset [0 ..< nextIndex st] + mset (awaiting_of [x])" for x
    using awaiting_of_update [OF w, of x] inv
    by (simp add: pool_inv_def awaited_def add.commute add.left_commute)
  have fe: "\<not> truthy (firstError st1) \<or> is_string (firstError st1)"
    using ef(4) inv by (simp add: pool_inv_def)
  have fin: "Finished \<in> set ((workers st)[w := Awaiting j]) \<Longrightarrow> Finished \<in> set (workers st)" for j
    using set_update_subset_insert [of "workers st" w "Awaiting j"] by auto
  show "length (workers st') = length (workers st)"
    using st' fr by (simp add: claim_next_def)
  have "pool_inv d signedTxs endpoint (finished @ [idx]) st'"
  proof (cases "nextIndex st < length signedTxs")
    case True
    then have s: "st' = st1\<lparr>nextIndex := nextIndex st + 1, posted := posted st @ [nextIndex st],
        workers := (workers st)[w := Awaiting (nextIndex st)]\<rparr>"
      using st' fr by (simp add: claim_next_def)
    show ?thesis
      unfolding pool_inv_def s
      using True inv ef(1-3) fe aw [of "Awaiting (nextIndex st)"] fin [of "nextIndex st"]
      by (auto simp: pool_inv_def awaited_def)
  next
    case False
    then have s: "st' = st1\<lparr>workers := (workers st)[w := Finished]\<rparr>"
      using st' fr by (simp add: claim_next_def)
    show ?thesis
      unfolding pool_inv_def s
      using False inv ef(1-3) fe fr aw [of Finished]
      by (auto simp: pool_inv_def awaited_def)
  qed
  then show "\<exists>idx. idx < length signedTxs \<and> pool_inv d signedTxs endpoint (finished @ [idx]) st'"
    using idx by blast
qed


lemma run_inv:
  "pool_inv d signedTxs endpoint finished st \<Longrightarrow>
   \<forall>i < length signedTxs. conforming (endpoint i) \<Longrightarrow>
   run d signedTxs endpoint arrivals st = Some st' \<Longrightarrow>
     \<exists>more. length more = length arrivals
          \<and> pool_inv d signedTxs endpoint (finished @ more) st'
          \<and> length (workers st') = length (workers st)"
proof (induction arrivals arbitrary: finished st)
  case Nil
  then show ?case by simp
next
  case (Cons w arrivals)
  from Cons.prems(3) obtain st1 where d: "deliver d signedTxs endpoint w st = Some st1"
    and r: "run d signedTxs endpoint arrivals st1 = Some st'"
    by (auto split: option.splits)
  from deliver_inv [OF Cons.prems(1,2) d] obtain idx where
    i: "pool_inv d signedTxs endpoint (finished @ [idx]) st1"
    and l: "length (workers st1) = length (workers st)"
    by blast
  from Cons.IH [OF i Cons.prems(2) r] obtain more where
    "length more = length arrivals" "pool_inv d signedTxs endpoint ((finished @ [idx]) @ more) st'"
    "length (workers st') = length (workers st1)"
    by blast
  then have "length (idx # more) = length (w # arrivals)
      \<and> pool_inv d signedTxs endpoint (finished @ idx # more) st'
      \<and> length (workers st') = length (workers st)"
    using l by simp
  then show ?case by blast
qed

lemma pool_inv_count:
  assumes "pool_inv d signedTxs endpoint finished st"
  shows "successCount st + errorCount st = length finished"
    and "length finished \<le> length signedTxs"
    and "length finished + length (awaited st) = nextIndex st"
    and "successCount st = length (pool_txHashes st)"
proof -
  show "successCount st + errorCount st = length finished"
    using assms sum_length_filter_compl [of "\<lambda>i. accepts (endpoint i)" finished]
    by (simp add: pool_inv_def)
  have "size (mset (awaited st) + mset finished) = size (mset [0 ..< nextIndex st])"
    using assms by (simp only: pool_inv_def)
  then show "length finished + length (awaited st) = nextIndex st" by simp
  then show "length finished \<le> length signedTxs" using assms by (simp add: pool_inv_def)
  show "successCount st = length (pool_txHashes st)" using assms by (simp add: pool_inv_def)
qed

lemma pool_inv_settled:
  assumes inv: "pool_inv d signedTxs endpoint finished st"
    and "settled st" "workers st \<noteq> []"
  shows "mset finished = mset [0 ..< length signedTxs]"
    and "posted st = [0 ..< length signedTxs]"
proof -
  from assms(2,3) have "Finished \<in> set (workers st)"
    by (cases "workers st") (simp_all add: settled_def)
  then have n: "nextIndex st = length signedTxs" using inv by (simp add: pool_inv_def)
  have "awaited st = []" using assms(2) by (simp add: settled_def awaited_def awaiting_of_settled)
  then show "mset finished = mset [0 ..< length signedTxs]"
    using inv n by (simp add: pool_inv_def)
  show "posted st = [0 ..< length signedTxs]" using inv n by (simp add: pool_inv_def)
qed

lemma filter_length_cong:
  assumes "mset xs = mset ys"
  shows "length (filter P xs) = length (filter P ys)"
proof -
  have "size (filter_mset P (mset xs)) = size (filter_mset P (mset ys))" using assms by simp
  then show ?thesis by (simp only: mset_filter [symmetric] size_mset)
qed

lemma deliver_enabled:
  assumes "\<not> settled st"
  shows "\<exists>w st'. deliver d signedTxs endpoint w st = Some st'"
proof -
  from unsettled_worker [OF assms [unfolded settled_def]] obtain w idx where
    "w < length (workers st)" "workers st ! w = Awaiting idx" by blast
  then have "\<exists>st'. deliver d signedTxs endpoint w st = Some st'"
    by (simp add: deliver_def split: prod.splits)
  then show ?thesis by blast
qed

lemma run_append:
  "run d signedTxs endpoint (xs @ ys) st
     = (case run d signedTxs endpoint xs st of
          None \<Rightarrow> None
        | Some st' \<Rightarrow> run d signedTxs endpoint ys st')"
  by (induction xs arbitrary: st) (simp_all split: option.splits)

lemma run_completes:
  "pool_inv d signedTxs endpoint finished st \<Longrightarrow>
   \<forall>i < length signedTxs. conforming (endpoint i) \<Longrightarrow>
     \<exists>arrivals st'. run d signedTxs endpoint arrivals st = Some st' \<and> settled st'"
proof (induction "length signedTxs - length finished" arbitrary: finished st rule: less_induct)
  case less
  show ?case
  proof (cases "settled st")
    case True
    then have "run d signedTxs endpoint [] st = Some st \<and> settled st" by simp
    then show ?thesis by blast
  next
    case False
    from deliver_enabled [OF False] obtain w st1 where
      d: "deliver d signedTxs endpoint w st = Some st1" by blast
    from deliver_inv(1) [OF less.prems d] obtain idx where
      i: "pool_inv d signedTxs endpoint (finished @ [idx]) st1" by blast
    from pool_inv_count(2) [OF i] have "length finished < length signedTxs" by simp
    then have "length signedTxs - length (finished @ [idx]) < length signedTxs - length finished"
      by simp
    from less.hyps [OF this i less.prems(2)] obtain arrivals st' where
      "run d signedTxs endpoint arrivals st1 = Some st'" "settled st'" by blast
    then have "run d signedTxs endpoint (w # arrivals) st = Some st' \<and> settled st'"
      using d by simp
    then show ?thesis by blast
  qed
qed


lemma entry_hash: "accepts r \<Longrightarrow> truthy (acc_hash (entry d e r))"
  by (cases r; cases d) (simp_all add: accepts_def entry_def result_of_def accept_def)

lemma truthy_nonempty: "truthy v \<Longrightarrow> v \<noteq> JString []"
  by (cases v) simp_all

lemma example_endpoint_conforming: "conforming (example_endpoint i)"
  by (simp add: example_endpoint_def conforming_def is_string_def)

lemma example_broadcast:
  "outcome_summary (fireAndForgetBroadcast Mixed example_envelopes 2 example_endpoint [1, 0, 1])
     = Some (1, 2, [JString ''0xaa''], [0, 1, 2])"
  "outcome_summary (fireAndForgetBroadcast SingleType example_envelopes 2 example_endpoint [0, 1, 0])
     = Some (1, 2, [JString ''0xaa''], [0, 1, 2])"
  by code_simp+

lemma no_workers_no_outcomes:
  "outcome_summary (fireAndForgetBroadcast d signedTxs 0 endpoint []) = Some (0, 0, [], [])"
  by (simp add: outcome_summary_def fireAndForgetBroadcast_def start_workers_def empty_pool_def
      settled_def prints_first_error_def is_string_def split: driver.splits)

lemma numeric_message_counted_twice:
  "errorCount (record_mixed e (Body JNull (JNumber 42)) empty_pool) = 2"
  "errorCount (record_simple e (Body JNull (JNumber 42)) empty_pool) = 1"
  by (simp_all add: record_mixed_def record_simple_def or_default_def Let_def empty_pool_def)

section \<open>One outcome per envelope\<close>

text \<open>
  C4 (as amended). For both drivers, with at least one worker and an endpoint whose error
  messages are strings: after any sequence of replies the success count plus the failure
  count is the
  number of replies received, which is at most the number of envelopes, and as long as a
  worker is waiting a reply can be delivered. When the pool has completed, the function
  returns; every index from 0 to N - 1 was posted once, in ascending order; the replies
  arrived in an order that is a permutation of these indices; the entries of the hash list
  are those of the accepted envelopes, one each, in the order of arrival; the success count
  is the number of envelopes with an accepting reply, the failure count the number of the
  others, and their sum is N; every entry carries a truthy hash, so never the empty string.
  A complete run exists.
\<close>

theorem broadcast_one_outcome_per_envelope:
  "1 \<le> concurrentRequests \<and> (\<forall>i < length signedTxs. conforming (endpoint i)) \<longrightarrow>
     (\<forall>arrivals st.
        run d signedTxs endpoint arrivals (start_workers (length signedTxs) concurrentRequests)
          = Some st \<longrightarrow>
          successCount st + errorCount st = length arrivals
        \<and> length arrivals \<le> length signedTxs
        \<and> (\<not> settled st \<longrightarrow> (\<exists>w st'. deliver d signedTxs endpoint w st = Some st')))
   \<and> (\<forall>arrivals res.
        fireAndForgetBroadcast d signedTxs concurrentRequests endpoint arrivals = Some res \<longrightarrow>
        (\<exists>st finished. res = Inr st
           \<and> mset finished = mset [0 ..< length signedTxs]
           \<and> length arrivals = length signedTxs
           \<and> posted st = [0 ..< length signedTxs]
           \<and> pool_txHashes st = map (\<lambda>i. entry d (signedTxs ! i) (endpoint i))
                              (filter (\<lambda>i. accepts (endpoint i)) finished)
           \<and> successCount st = length (pool_txHashes st)
           \<and> successCount st
               = length (filter (\<lambda>i. accepts (endpoint i)) [0 ..< length signedTxs])
           \<and> errorCount st
               = length (filter (\<lambda>i. \<not> accepts (endpoint i)) [0 ..< length signedTxs])
           \<and> successCount st + errorCount st = length signedTxs
           \<and> (\<forall>h \<in> set (pool_txHashes st). truthy (acc_hash h) \<and> acc_hash h \<noteq> JString [])))
   \<and> (\<exists>arrivals st.
        fireAndForgetBroadcast d signedTxs concurrentRequests endpoint arrivals = Some (Inr st))"
proof (intro impI conjI allI)
  assume h: "1 \<le> concurrentRequests \<and> (\<forall>i < length signedTxs. conforming (endpoint i))"
  then have conf: "\<forall>i < length signedTxs. conforming (endpoint i)" by simp
  let ?start = "start_workers (length signedTxs) concurrentRequests"
  note start = start_workers_inv(1) [of d signedTxs endpoint concurrentRequests]
    start_workers_inv(2) [of signedTxs concurrentRequests]
  have ws: "length (workers ?start) \<noteq> 0" using h start(2) by simp
  {
    fix arrivals st
    assume r: "run d signedTxs endpoint arrivals ?start = Some st"
    from run_inv [OF start(1) conf r] obtain finished where
      f: "length finished = length arrivals" "pool_inv d signedTxs endpoint finished st"
      "length (workers st) = length (workers ?start)"
      by auto
    show "successCount st + errorCount st = length arrivals"
      using pool_inv_count(1) [OF f(2)] f(1) by simp
    show "length arrivals \<le> length signedTxs"
      using pool_inv_count(2) [OF f(2)] f(1) by simp
    show "\<exists>w st'. deliver d signedTxs endpoint w st = Some st'" if "\<not> settled st"
      using that by (rule deliver_enabled)
  }
  {
    fix arrivals res
    assume b: "fireAndForgetBroadcast d signedTxs concurrentRequests endpoint arrivals = Some res"
    then obtain st where r: "run d signedTxs endpoint arrivals ?start = Some st"
      and s: "settled st"
      and res: "res = (if prints_first_error d st \<and> \<not> is_string (firstError st)
                   then Inl NotAFunction else Inr st)"
      by (auto simp: fireAndForgetBroadcast_def split: option.splits if_splits)
    from run_inv [OF start(1) conf r] obtain finished where
      f: "length finished = length arrivals" "pool_inv d signedTxs endpoint finished st"
      "length (workers st) = length (workers ?start)"
      by auto
    have ne: "workers st \<noteq> []" using f(3) ws by auto
    note fin = pool_inv_settled [OF f(2) s ne]
    have fe: "\<not> truthy (firstError st) \<or> is_string (firstError st)"
      using f(2) by (simp add: pool_inv_def)
    then have res': "res = Inr st"
      using res by (auto simp: prints_first_error_def split: driver.splits)
    have len: "length finished = length signedTxs"
      using arg_cong [OF fin(1), of size] by simp
    have tx: "pool_txHashes st = map (\<lambda>i. entry d (signedTxs ! i) (endpoint i))
                              (filter (\<lambda>i. accepts (endpoint i)) finished)"
      using f(2) by (simp add: pool_inv_def)
    have sc: "successCount st
               = length (filter (\<lambda>i. accepts (endpoint i)) [0 ..< length signedTxs])"
      using f(2) filter_length_cong [OF fin(1), of "\<lambda>i. accepts (endpoint i)"]
      by (simp add: pool_inv_def)
    have ec: "errorCount st
               = length (filter (\<lambda>i. \<not> accepts (endpoint i)) [0 ..< length signedTxs])"
      using f(2) filter_length_cong [OF fin(1), of "\<lambda>i. \<not> accepts (endpoint i)"]
      by (simp add: pool_inv_def)
    have hashes: "\<forall>h \<in> set (pool_txHashes st). truthy (acc_hash h) \<and> acc_hash h \<noteq> JString []"
      unfolding tx using entry_hash truthy_nonempty by auto
    show "\<exists>st finished. res = Inr st
           \<and> mset finished = mset [0 ..< length signedTxs]
           \<and> length arrivals = length signedTxs
           \<and> posted st = [0 ..< length signedTxs]
           \<and> pool_txHashes st = map (\<lambda>i. entry d (signedTxs ! i) (endpoint i))
                              (filter (\<lambda>i. accepts (endpoint i)) finished)
           \<and> successCount st = length (pool_txHashes st)
           \<and> successCount st
               = length (filter (\<lambda>i. accepts (endpoint i)) [0 ..< length signedTxs])
           \<and> errorCount st
               = length (filter (\<lambda>i. \<not> accepts (endpoint i)) [0 ..< length signedTxs])
           \<and> successCount st + errorCount st = length signedTxs
           \<and> (\<forall>h \<in> set (pool_txHashes st). truthy (acc_hash h) \<and> acc_hash h \<noteq> JString [])"
      using res' fin f(1) len tx sc ec hashes pool_inv_count(1,4) [OF f(2)]
      by (intro exI [of _ st] exI [of _ finished]) (simp only: simp_thms)
  }
  from run_completes [OF start(1) conf] obtain arrivals st where
    r: "run d signedTxs endpoint arrivals ?start = Some st" and s: "settled st" by blast
  from run_inv [OF start(1) conf r] obtain finished where
    f: "pool_inv d signedTxs endpoint finished st" by auto
  then have "\<not> truthy (firstError st) \<or> is_string (firstError st)" by (simp add: pool_inv_def)
  then have "fireAndForgetBroadcast d signedTxs concurrentRequests endpoint arrivals
      = Some (Inr st)"
    using r s by (auto simp: fireAndForgetBroadcast_def prints_first_error_def split: driver.splits)
  then show "\<exists>arrivals st.
        fireAndForgetBroadcast d signedTxs concurrentRequests endpoint arrivals = Some (Inr st)"
    by blast
qed

theorem broadcast_one_outcome_per_envelope_witness:
  "\<exists>st. fireAndForgetBroadcast Mixed example_envelopes 2 example_endpoint [1, 0, 1] = Some (Inr st)
     \<and> successCount st = 1 \<and> errorCount st = 2
     \<and> successCount st + errorCount st = length example_envelopes
     \<and> posted st = [0, 1, 2]
     \<and> map acc_hash (pool_txHashes st) = [JString ''0xaa'']"
proof -
  from example_broadcast(1) obtain st where
    r: "fireAndForgetBroadcast Mixed example_envelopes 2 example_endpoint [1, 0, 1] = Some (Inr st)"
    and f: "successCount st = 1" "errorCount st = 2" "posted st = [0, 1, 2]"
      "map acc_hash (pool_txHashes st) = [JString ''0xaa'']"
    by (auto simp: outcome_summary_def split: option.splits sum.splits)
  have hyp: "1 \<le> (2::int) \<and> (\<forall>i < length example_envelopes. conforming (example_endpoint i))"
    by (simp add: example_endpoint_conforming)
  note t = broadcast_one_outcome_per_envelope [where d = Mixed and signedTxs = example_envelopes
      and concurrentRequests = 2 and endpoint = example_endpoint]
  from t [THEN mp, OF hyp, THEN conjunct2, THEN conjunct1, rule_format, OF r]
  have sum: "successCount st + errorCount st = length example_envelopes" by auto
  show ?thesis by (rule exI [of _ st]) (intro conjI r f sum)
qed

text \<open>
  With \<^verbatim>\<open>--concurrent=0\<close> the loop that starts the workers does not run: of three envelopes
  none is posted, the function returns at once, and both counts are 0 in either driver.
\<close>

theorem idle_pool_counterexample:
  "length example_envelopes = 3
   \<and> outcome_summary (fireAndForgetBroadcast SingleType example_envelopes 0 example_endpoint [])
       = Some (0, 0, [], [])
   \<and> outcome_summary (fireAndForgetBroadcast Mixed example_envelopes 0 example_endpoint [])
       = Some (0, 0, [], [])"
  by (simp add: example_envelopes_def outcome_summary_def fireAndForgetBroadcast_def
      start_workers_def empty_pool_def settled_def prints_first_error_def is_string_def)

section \<open>Facts about the run\<close>

lemma main_completed:
  "main d r = Completed \<longleftrightarrow>
       (d = Mixed \<longrightarrow> interactive r = Resolves True)
     \<and> connection r = Resolves ()
     \<and> (\<exists>balance. funderBalance r = Resolves balance
          \<and> (d = SingleType \<longrightarrow>
               (\<exists>required. requiredBalance r = Resolves required \<and> required \<le> balance)))
     \<and> network r = Resolves ()
     \<and> (d = Mixed \<longrightarrow> contractsSetup r = Resolves ())
     \<and> (\<exists>n. 0 < n \<and> fundedSenders r = Resolves n)
     \<and> (\<exists>k. 0 < k \<and> signedCount r = Resolves k)
     \<and> (\<exists>st. sendResult r = Inr st \<and> pool_txHashes st \<noteq> [])
     \<and> (\<exists>a. tpsAnalysis r = Inr a)
     \<and> report r = Resolves ()"
proof -
  have b: "broadcast_onwards r = Completed \<longleftrightarrow>
      (\<exists>st. sendResult r = Inr st \<and> pool_txHashes st \<noteq> []) \<and> (\<exists>a. tpsAnalysis r = Inr a)
      \<and> report r = Resolves ()"
    by (auto simp: broadcast_onwards_def returned_def awaiting_def split: sum.splits rpc.splits)
  have s: "senders_onwards r = Completed \<longleftrightarrow>
      (\<exists>n. 0 < n \<and> fundedSenders r = Resolves n) \<and> (\<exists>k. 0 < k \<and> signedCount r = Resolves k)
      \<and> broadcast_onwards r = Completed"
    by (auto simp: senders_onwards_def awaiting_def split: rpc.splits)
  have m1: "main_simple r = Completed \<longleftrightarrow>
      connection r = Resolves ()
      \<and> (\<exists>balance required. funderBalance r = Resolves balance
            \<and> requiredBalance r = Resolves required \<and> required \<le> balance)
      \<and> network r = Resolves () \<and> senders_onwards r = Completed"
    by (auto simp: main_simple_def connect_def awaiting_def split: rpc.splits)
  have m2: "main_mixed r = Completed \<longleftrightarrow>
      interactive r = Resolves True \<and> connection r = Resolves ()
      \<and> (\<exists>balance. funderBalance r = Resolves balance)
      \<and> network r = Resolves () \<and> contractsSetup r = Resolves ()
      \<and> senders_onwards r = Completed"
    by (auto simp: main_mixed_def connect_def awaiting_def split: rpc.splits)
  show ?thesis
  proof (cases d)
    case SingleType
    then show ?thesis unfolding main_def by (auto simp: m1 s b)
  next
    case Mixed
    then show ?thesis unfolding main_def by (auto simp: m2 s b)
  qed
qed

lemma main_cancelled: "main d r = Cancelled \<longleftrightarrow> d = Mixed \<and> interactive r = Resolves False"
proof -
  have b: "broadcast_onwards r \<noteq> Cancelled"
    by (auto simp: broadcast_onwards_def returned_def awaiting_def split: sum.splits rpc.splits)
  have s: "senders_onwards r \<noteq> Cancelled"
    using b by (auto simp: senders_onwards_def awaiting_def split: rpc.splits)
  have "main_simple r \<noteq> Cancelled"
    using s by (auto simp: main_simple_def connect_def awaiting_def split: rpc.splits)
  moreover have "main_mixed r = Cancelled \<longleftrightarrow> interactive r = Resolves False"
    using s by (auto simp: main_mixed_def connect_def awaiting_def split: rpc.splits)
  ultimately show ?thesis by (cases d) (simp_all add: main_def)
qed

lemma main_fatal:
  shows "main d r = Fatal ConnectionFailed \<Longrightarrow> \<exists>message. connection r = Rejects message"
    and "main d r = Fatal InsufficientFunderBalance \<Longrightarrow>
           d = SingleType \<and> (\<exists>balance required. funderBalance r = Resolves balance
              \<and> requiredBalance r = Resolves required \<and> balance < required)"
    and "main d r = Fatal NoSenders \<Longrightarrow> fundedSenders r = Resolves 0"
    and "main d r = Fatal NothingSigned \<Longrightarrow> signedCount r = Resolves 0"
    and "main d r = Fatal NothingBroadcast \<Longrightarrow>
           \<exists>st. sendResult r = Inr st \<and> pool_txHashes st = []"
proof -
  have b: "broadcast_onwards r = Fatal f \<Longrightarrow>
      f = Uncaught \<or> f = NothingBroadcast \<and> (\<exists>st. sendResult r = Inr st \<and> pool_txHashes st = [])"
    for f
    by (auto simp: broadcast_onwards_def returned_def awaiting_def
        split: sum.splits rpc.splits if_splits)
  have s: "senders_onwards r = Fatal f \<Longrightarrow>
      f = Uncaught \<or> f = NoSenders \<and> fundedSenders r = Resolves 0
      \<or> f = NothingSigned \<and> signedCount r = Resolves 0
      \<or> f = NothingBroadcast \<and> (\<exists>st. sendResult r = Inr st \<and> pool_txHashes st = [])"
    for f
    using b [of f] by (auto simp: senders_onwards_def awaiting_def split: rpc.splits if_splits)
  have m1: "main_simple r = Fatal f \<Longrightarrow>
      f = Uncaught \<or> f = ConnectionFailed \<and> (\<exists>message. connection r = Rejects message)
      \<or> f = InsufficientFunderBalance \<and> (\<exists>balance required. funderBalance r = Resolves balance
              \<and> requiredBalance r = Resolves required \<and> balance < required)
      \<or> f = NoSenders \<and> fundedSenders r = Resolves 0
      \<or> f = NothingSigned \<and> signedCount r = Resolves 0
      \<or> f = NothingBroadcast \<and> (\<exists>st. sendResult r = Inr st \<and> pool_txHashes st = [])"
    for f
    using s [of f]
    by (auto simp: main_simple_def connect_def awaiting_def split: rpc.splits if_splits)
  have m2: "main_mixed r = Fatal f \<Longrightarrow>
      f = Uncaught \<or> f = ConnectionFailed \<and> (\<exists>message. connection r = Rejects message)
      \<or> f = NoSenders \<and> fundedSenders r = Resolves 0
      \<or> f = NothingSigned \<and> signedCount r = Resolves 0
      \<or> f = NothingBroadcast \<and> (\<exists>st. sendResult r = Inr st \<and> pool_txHashes st = [])"
    for f
    using s [of f]
    by (auto simp: main_mixed_def connect_def awaiting_def split: rpc.splits if_splits)
  have m: "main d r = Fatal f \<Longrightarrow>
      f = Uncaught \<or> f = ConnectionFailed \<and> (\<exists>message. connection r = Rejects message)
      \<or> f = InsufficientFunderBalance \<and> d = SingleType
          \<and> (\<exists>balance required. funderBalance r = Resolves balance
              \<and> requiredBalance r = Resolves required \<and> balance < required)
      \<or> f = NoSenders \<and> fundedSenders r = Resolves 0
      \<or> f = NothingSigned \<and> signedCount r = Resolves 0
      \<or> f = NothingBroadcast \<and> (\<exists>st. sendResult r = Inr st \<and> pool_txHashes st = [])"
    for f
    using m1 [of f] m2 [of f] by (cases d) (auto simp: main_def)
  show "main d r = Fatal ConnectionFailed \<Longrightarrow> \<exists>message. connection r = Rejects message"
    using m [of ConnectionFailed] by simp
  show "main d r = Fatal InsufficientFunderBalance \<Longrightarrow>
           d = SingleType \<and> (\<exists>balance required. funderBalance r = Resolves balance
              \<and> requiredBalance r = Resolves required \<and> balance < required)"
    using m [of InsufficientFunderBalance] by simp
  show "main d r = Fatal NoSenders \<Longrightarrow> fundedSenders r = Resolves 0"
    using m [of NoSenders] by simp
  show "main d r = Fatal NothingSigned \<Longrightarrow> signedCount r = Resolves 0"
    using m [of NothingSigned] by simp
  show "main d r = Fatal NothingBroadcast \<Longrightarrow>
           \<exists>st. sendResult r = Inr st \<and> pool_txHashes st = []"
    using m [of NothingBroadcast] by simp
qed

lemma main_ignores_confirmation: "main d (r\<lparr>confirmResult := c\<rparr>) = main d r"
proof -
  have b: "broadcast_onwards (r\<lparr>confirmResult := c\<rparr>) = broadcast_onwards r"
    by (simp add: broadcast_onwards_def cong: if_cong)
  have s: "senders_onwards (r\<lparr>confirmResult := c\<rparr>) = senders_onwards r"
    by (simp add: senders_onwards_def b cong: if_cong)
  show ?thesis
    by (cases d)
      (auto simp: main_def main_simple_def main_mixed_def connect_def awaiting_def s
        split: rpc.splits)
qed

lemma exit_code_fatal: "exit_code e \<noteq> 0 \<longleftrightarrow> (\<exists>f. e = Fatal f)"
  by (cases e) simp_all


lemma main_perturbed:
  assumes "main d r = Completed"
  shows "main d (r\<lparr>connection := Rejects message\<rparr>) = Fatal ConnectionFailed"
    and "main d (r\<lparr>fundedSenders := Resolves 0\<rparr>) = Fatal NoSenders"
    and "main d (r\<lparr>signedCount := Resolves 0\<rparr>) = Fatal NothingSigned"
    and "pool_txHashes st = [] \<Longrightarrow> main d (r\<lparr>sendResult := Inr st\<rparr>) = Fatal NothingBroadcast"
    and "d = SingleType \<Longrightarrow> required' > balance' \<Longrightarrow>
           main d (r\<lparr>funderBalance := Resolves balance', requiredBalance := Resolves required'\<rparr>)
             = Fatal InsufficientFunderBalance"
    and "main d (r\<lparr>funderBalance := Rejects message\<rparr>) = Fatal Uncaught"
    and "main d (r\<lparr>network := Rejects message\<rparr>) = Fatal Uncaught"
    and "main d (r\<lparr>fundedSenders := Rejects message\<rparr>) = Fatal Uncaught"
    and "main d (r\<lparr>signedCount := Rejects message\<rparr>) = Fatal Uncaught"
    and "main d (r\<lparr>sendResult := Inl e\<rparr>) = Fatal Uncaught"
    and "main d (r\<lparr>tpsAnalysis := Inl e'\<rparr>) = Fatal Uncaught"
    and "main d (r\<lparr>report := Rejects message\<rparr>) = Fatal Uncaught"
    and "d = Mixed \<Longrightarrow> main d (r\<lparr>contractsSetup := Rejects message\<rparr>) = Fatal Uncaught"
    and "pool_txHashes st \<noteq> [] \<Longrightarrow> main d (r\<lparr>sendResult := Inr st\<rparr>) = Completed"
    and "0 < n \<Longrightarrow> main d (r\<lparr>fundedSenders := Resolves n\<rparr>) = Completed"
    and "main d (r\<lparr>tpsAnalysis := Inr a\<rparr>) = Completed"
proof -
  note c = assms [unfolded main_completed]
  from c obtain balance n0 k st0 a0 where
    f: "connection r = Resolves ()" "funderBalance r = Resolves balance" "network r = Resolves ()"
      "fundedSenders r = Resolves n0" "0 < n0" "signedCount r = Resolves k" "0 < k"
      "sendResult r = Inr st0" "pool_txHashes st0 \<noteq> []" "tpsAnalysis r = Inr a0"
      "report r = Resolves ()"
    by blast
  have i: "d = Mixed \<Longrightarrow> interactive r = Resolves True \<and> contractsSetup r = Resolves ()"
    using c by blast
  have q: "d = SingleType \<Longrightarrow> \<exists>required. requiredBalance r = Resolves required \<and> required \<le> balance"
    using c f(2) by auto
  note defs = main_def main_simple_def main_mixed_def connect_def awaiting_def returned_def
    senders_onwards_def broadcast_onwards_def
  show "main d (r\<lparr>connection := Rejects message\<rparr>) = Fatal ConnectionFailed"
    using i by (cases d) (simp_all add: defs)
  show "main d (r\<lparr>fundedSenders := Resolves 0\<rparr>) = Fatal NoSenders"
    using i q f by (cases d) (auto simp: defs)
  show "main d (r\<lparr>signedCount := Resolves 0\<rparr>) = Fatal NothingSigned"
    using i q f by (cases d) (auto simp: defs)
  show "pool_txHashes st = [] \<Longrightarrow> main d (r\<lparr>sendResult := Inr st\<rparr>) = Fatal NothingBroadcast"
    using i q f by (cases d) (auto simp: defs)
  show "d = SingleType \<Longrightarrow> required' > balance' \<Longrightarrow>
           main d (r\<lparr>funderBalance := Resolves balance', requiredBalance := Resolves required'\<rparr>)
             = Fatal InsufficientFunderBalance"
    using f by (simp add: defs)
  show "main d (r\<lparr>funderBalance := Rejects message\<rparr>) = Fatal Uncaught"
    using i q f by (cases d) (auto simp: defs)
  show "main d (r\<lparr>network := Rejects message\<rparr>) = Fatal Uncaught"
    using i q f by (cases d) (auto simp: defs)
  show "main d (r\<lparr>fundedSenders := Rejects message\<rparr>) = Fatal Uncaught"
    using i q f by (cases d) (auto simp: defs)
  show "main d (r\<lparr>signedCount := Rejects message\<rparr>) = Fatal Uncaught"
    using i q f by (cases d) (auto simp: defs)
  show "main d (r\<lparr>sendResult := Inl e\<rparr>) = Fatal Uncaught"
    using i q f by (cases d) (auto simp: defs)
  show "main d (r\<lparr>tpsAnalysis := Inl e'\<rparr>) = Fatal Uncaught"
    using i q f by (cases d) (auto simp: defs)
  show "main d (r\<lparr>report := Rejects message\<rparr>) = Fatal Uncaught"
    using i q f by (cases d) (auto simp: defs)
  show "d = Mixed \<Longrightarrow> main d (r\<lparr>contractsSetup := Rejects message\<rparr>) = Fatal Uncaught"
    using i f by (simp add: defs)
  show "pool_txHashes st \<noteq> [] \<Longrightarrow> main d (r\<lparr>sendResult := Inr st\<rparr>) = Completed"
    using c unfolding main_completed by simp
  show "0 < n \<Longrightarrow> main d (r\<lparr>fundedSenders := Resolves n\<rparr>) = Completed"
    using c unfolding main_completed by simp
  show "main d (r\<lparr>tpsAnalysis := Inr a\<rparr>) = Completed"
    using c unfolding main_completed by simp
qed


lemma main_uncaught:
  assumes "main d r = Fatal Uncaught"
  shows "(\<exists>message. interactive r = Rejects message \<or> funderBalance r = Rejects message
            \<or> requiredBalance r = Rejects message \<or> network r = Rejects message
            \<or> contractsSetup r = Rejects message \<or> fundedSenders r = Rejects message
            \<or> signedCount r = Rejects message \<or> report r = Rejects message)
         \<or> (\<exists>e. sendResult r = Inl e) \<or> (\<exists>e. tpsAnalysis r = Inl e)"
proof -
  let ?R = "(\<exists>message. interactive r = Rejects message \<or> funderBalance r = Rejects message
            \<or> requiredBalance r = Rejects message \<or> network r = Rejects message
            \<or> contractsSetup r = Rejects message \<or> fundedSenders r = Rejects message
            \<or> signedCount r = Rejects message \<or> report r = Rejects message)
         \<or> (\<exists>e. sendResult r = Inl e) \<or> (\<exists>e. tpsAnalysis r = Inl e)"
  have b: "broadcast_onwards r = Fatal Uncaught \<Longrightarrow> ?R"
    by (auto simp: broadcast_onwards_def returned_def awaiting_def
        split: sum.splits rpc.splits if_splits)
  have s: "senders_onwards r = Fatal Uncaught \<Longrightarrow> ?R"
    using b by (auto simp: senders_onwards_def awaiting_def split: rpc.splits if_splits)
  have m1: "main_simple r = Fatal Uncaught \<Longrightarrow> ?R"
    using s by (auto simp: main_simple_def connect_def awaiting_def split: rpc.splits if_splits)
  have m2: "main_mixed r = Fatal Uncaught \<Longrightarrow> ?R"
    using s by (auto simp: main_mixed_def connect_def awaiting_def split: rpc.splits if_splits)
  show ?thesis using assms m1 m2 by (cases d) (simp_all add: main_def)
qed

lemma example_run_completes: "main Mixed example_run = Completed"
proof -
  from example_broadcast(1) obtain st where
    "fireAndForgetBroadcast Mixed example_envelopes 2 example_endpoint [1, 0, 1] = Some (Inr st)"
    "map acc_hash (pool_txHashes st) = [JString ''0xaa'']"
    by (auto simp: outcome_summary_def split: option.splits sum.splits)
  then have s: "sendResult example_run = Inr st" "pool_txHashes st \<noteq> []"
    by (auto simp: example_run_def)
  have "receipts (waitForConfirmations_mixed silent_endpoint [''0xaa''] 60000) = []"
    unfolding waitForConfirmations_mixed_def
    by (rule wait_loop_mixed_never [THEN conjunct1]) (simp add: silent_endpoint_def)
  then have a: "tpsAnalysis example_run = Inr None"
    by (simp add: example_run_def analyzeBlockTPS_mixed_def)
  show ?thesis
    unfolding main_completed using s a by (simp add: example_run_def)
qed

lemma broadcast_none_accepted:
  assumes k: "1 \<le> concurrentRequests"
    and conf: "\<forall>i < length signedTxs. conforming (endpoint i)"
    and b: "fireAndForgetBroadcast d signedTxs concurrentRequests endpoint arrivals = Some res"
  shows "\<exists>st. res = Inr st
           \<and> (pool_txHashes st = [] \<longleftrightarrow> (\<forall>i < length signedTxs. \<not> accepts (endpoint i)))"
proof -
  let ?start = "start_workers (length signedTxs) concurrentRequests"
  note start = start_workers_inv(1) [of d signedTxs endpoint concurrentRequests]
    start_workers_inv(2) [of signedTxs concurrentRequests]
  from b obtain st where r: "run d signedTxs endpoint arrivals ?start = Some st"
    and s: "settled st"
    and res: "res = (if prints_first_error d st \<and> \<not> is_string (firstError st)
                 then Inl NotAFunction else Inr st)"
    by (auto simp: fireAndForgetBroadcast_def split: option.splits if_splits)
  from run_inv [OF start(1) conf r] obtain finished where
    f: "pool_inv d signedTxs endpoint finished st"
      "length (workers st) = length (workers ?start)"
    by auto
  have ne: "workers st \<noteq> []" using f(2) start(2) k by auto
  from pool_inv_settled(1) [OF f(1) s ne] have "set finished = set [0 ..< length signedTxs]"
    by (rule mset_eq_setD)
  then have fin: "set finished = {i. i < length signedTxs}" by auto
  have "\<not> truthy (firstError st) \<or> is_string (firstError st)"
    using f(1) by (simp add: pool_inv_def)
  then have "res = Inr st"
    using res by (auto simp: prints_first_error_def split: driver.splits)
  moreover have "pool_txHashes st = [] \<longleftrightarrow> (\<forall>i < length signedTxs. \<not> accepts (endpoint i))"
    using f(1) fin by (auto simp: pool_inv_def filter_empty_conv)
  ultimately show ?thesis by blast
qed

lemma fetch_blocks_present:
  "\<forall>i \<in> set ns. \<exists>b. getBlock c i = Resolves (Some b) \<Longrightarrow>
     \<exists>bs. fetch_blocks c ns = Inr (map Some bs)"
proof (induction ns)
  case Nil
  then show ?case by simp
next
  case (Cons i ns)
  then obtain b bs where "getBlock c i = Resolves (Some b)" "fetch_blocks c ns = Inr (map Some bs)"
    by auto
  then have "fetch_blocks c (i # ns) = Inr (map Some (b # bs))" by simp
  then show ?case by blast
qed

lemma count_simple_present: "\<exists>v. count_simple ours good (map Some bs) = Inr v"
  by (induction bs) (auto split: sum.splits)

lemma analysis_returns_simple:
  assumes "\<forall>i \<in> blockNumber ` set rs. \<exists>b. getBlock c i = Resolves (Some b)"
  shows "\<exists>a. analyzeBlockTPS_simple verifyAll k c rs ex ms = Inr a"
proof (cases "rs = []")
  case True
  then show ?thesis by (simp add: analyzeBlockTPS_simple_def)
next
  case False
  from assms have "\<forall>i \<in> set (blockNumbers_of rs). \<exists>b. getBlock c i = Resolves (Some b)"
    by (simp add: blockNumbers_of_set)
  from fetch_blocks_present [OF this] obtain bs where
    f: "fetch_blocks c (blockNumbers_of rs) = Inr (map Some bs)" by blast
  obtain v where cs: "count_simple (map (\<lambda>r. toLowerCase (hash r)) rs)
      (map (\<lambda>r. toLowerCase (hash r)) (filter (\<lambda>r. status r = 1) rs)) (map Some bs) = Inr v"
    using count_simple_present by blast
  have sr: "sample_results ex c rs (sampleIndices (length rs))
      = Inr (map (\<lambda>idx. check_sample ex c (rs ! idx)) (sampleIndices (length rs)))"
    by (rule sample_results_in_range) (simp add: sampleIndices_in_range)
  show ?thesis
    using False f cs sr
    by (cases v) (simp add: analyzeBlockTPS_simple_def Let_def)
qed


lemma count_mixed_present:
  "\<exists>t ours v s rv. count_mixed claimed rs (map Some bs) = (t, ours, v, s, rv, length bs)"
  by (induction bs) (auto simp: Let_def split: prod.splits)

lemma analysis_returns_mixed:
  assumes "\<forall>i \<in> {Min (blockNumber ` set rs) .. Max (blockNumber ` set rs)}.
             \<exists>b. getBlock c i = Resolves (Some b)"
  shows "\<exists>a. analyzeBlockTPS_mixed c rs ms = Inr a"
proof (cases "rs = []")
  case True
  then show ?thesis by (simp add: analyzeBlockTPS_mixed_def)
next
  case False
  let ?lo = "Min (blockNumber ` set rs)" and ?hi = "Max (blockNumber ` set rs)"
  have le: "?lo \<le> ?hi"
  proof -
    from False obtain r where "r \<in> set rs" by (cases rs) auto
    then have x: "blockNumber r \<in> blockNumber ` set rs" by simp
    have "?lo \<le> blockNumber r" using x by (intro Min_le) simp_all
    moreover have "blockNumber r \<le> ?hi" using x by (intro Max_ge) simp_all
    ultimately show ?thesis by simp
  qed
  from assms have "\<forall>i \<in> set [?lo .. ?hi]. \<exists>b. getBlock c i = Resolves (Some b)" by simp
  from fetch_blocks_present [OF this] obtain bs where
    f: "fetch_blocks c [?lo .. ?hi] = Inr (map Some bs)" by blast
  from fetch_blocks_Inr [OF f] have "length bs = length [?lo .. ?hi]"
    by (metis length_map)
  then have n: "length bs \<noteq> 0" using le by simp
  obtain t ours v s rv where
    "count_mixed (map (\<lambda>m. toLowerCase (sent_hash m)) ms) rs (map Some bs)
       = (t, ours, v, s, rv, length bs)"
    using count_mixed_present by blast
  then show ?thesis
    using False f n
    by (simp add: analyzeBlockTPS_mixed_def Let_def blockNumbers_of_set)
qed

section \<open>Fatal and non-fatal failures\<close>

text \<open>
  C3. The exit code is non-zero exactly when the run ends in one of the calls of
  \<^verbatim>\<open>process.exit(1)\<close>. Each of them has its condition: the connection test rejected; in the
  single-type driver, the funder's balance below the requirement; no sender returned; no
  transaction signed; no transaction broadcast successfully; or a call that rejected or
  threw, caught only at the top. Against a run that completes: a rejected connection, zero
  senders, zero signed transactions, a broadcast with no success and, in the single-type
  driver, a balance below the requirement each end the run with their fatal ending, and a
  rejection or exception in any phase ends it as uncaught; a broadcast with at least one
  success, however many failures, any positive number of senders, any confirmation result
  and any analysis that returns leave the run completing. With the result of the
  broadcaster put in (at least one worker, error messages that are strings), the run
  completes when the endpoint accepts at least one envelope and ends with the fatal ending
  of the broadcast when it accepts none. With the result of the analysis put in, the run
  completes whenever the blocks the analysis asks for exist, whatever the sample check
  finds.
\<close>

theorem main_exit_conditions:
  "(exit_code (main d r) \<noteq> 0 \<longleftrightarrow> (\<exists>f. main d r = Fatal f))
   \<and> (main d r = Fatal ConnectionFailed \<longrightarrow> (\<exists>message. connection r = Rejects message))
   \<and> (main d r = Fatal InsufficientFunderBalance \<longrightarrow>
         d = SingleType \<and> (\<exists>balance required. funderBalance r = Resolves balance
            \<and> requiredBalance r = Resolves required \<and> balance < required))
   \<and> (main d r = Fatal NoSenders \<longrightarrow> fundedSenders r = Resolves 0)
   \<and> (main d r = Fatal NothingSigned \<longrightarrow> signedCount r = Resolves 0)
   \<and> (main d r = Fatal NothingBroadcast \<longrightarrow>
         (\<exists>st. sendResult r = Inr st \<and> pool_txHashes st = []))
   \<and> (main d r = Fatal Uncaught \<longrightarrow>
         (\<exists>message. interactive r = Rejects message \<or> funderBalance r = Rejects message
            \<or> requiredBalance r = Rejects message \<or> network r = Rejects message
            \<or> contractsSetup r = Rejects message \<or> fundedSenders r = Rejects message
            \<or> signedCount r = Rejects message \<or> report r = Rejects message)
         \<or> (\<exists>e. sendResult r = Inl e) \<or> (\<exists>e. tpsAnalysis r = Inl e))
   \<and> (main d r = Completed \<longrightarrow>
         main d (r\<lparr>connection := Rejects message\<rparr>) = Fatal ConnectionFailed
       \<and> main d (r\<lparr>fundedSenders := Resolves 0\<rparr>) = Fatal NoSenders
       \<and> main d (r\<lparr>signedCount := Resolves 0\<rparr>) = Fatal NothingSigned
       \<and> (pool_txHashes st = [] \<longrightarrow> main d (r\<lparr>sendResult := Inr st\<rparr>) = Fatal NothingBroadcast)
       \<and> (d = SingleType \<and> balance' < required' \<longrightarrow>
             main d (r\<lparr>funderBalance := Resolves balance',
                         requiredBalance := Resolves required'\<rparr>)
               = Fatal InsufficientFunderBalance)
       \<and> main d (r\<lparr>funderBalance := Rejects message\<rparr>) = Fatal Uncaught
       \<and> main d (r\<lparr>fundedSenders := Rejects message\<rparr>) = Fatal Uncaught
       \<and> main d (r\<lparr>signedCount := Rejects message\<rparr>) = Fatal Uncaught
       \<and> main d (r\<lparr>sendResult := Inl e\<rparr>) = Fatal Uncaught
       \<and> main d (r\<lparr>tpsAnalysis := Inl e'\<rparr>) = Fatal Uncaught
       \<and> main d (r\<lparr>report := Rejects message\<rparr>) = Fatal Uncaught
       \<and> (pool_txHashes st \<noteq> [] \<longrightarrow> main d (r\<lparr>sendResult := Inr st\<rparr>) = Completed)
       \<and> (0 < n \<longrightarrow> main d (r\<lparr>fundedSenders := Resolves n\<rparr>) = Completed)
       \<and> main d (r\<lparr>confirmResult := cr\<rparr>) = Completed
       \<and> main d (r\<lparr>tpsAnalysis := Inr a\<rparr>) = Completed)
   \<and> (main d r = Completed \<and> 1 \<le> concurrentRequests
         \<and> (\<forall>i < length signedTxs. conforming (endpoint i))
         \<and> fireAndForgetBroadcast d signedTxs concurrentRequests endpoint arrivals = Some res
       \<longrightarrow> main d (r\<lparr>sendResult := res\<rparr>)
             = (if \<exists>i < length signedTxs. accepts (endpoint i) then Completed
                else Fatal NothingBroadcast))
   \<and> (main SingleType r = Completed
         \<and> (\<forall>i \<in> blockNumber ` set rs. \<exists>b. getBlock ch i = Resolves (Some b))
       \<longrightarrow> main SingleType
             (r\<lparr>tpsAnalysis := analyzeBlockTPS_simple verifyAll concurrentRequests ch rs ex ms\<rparr>)
             = Completed)
   \<and> (main Mixed r = Completed
         \<and> (\<forall>i \<in> {Min (blockNumber ` set rs) .. Max (blockNumber ` set rs)}.
               \<exists>b. getBlock ch i = Resolves (Some b))
       \<longrightarrow> main Mixed (r\<lparr>tpsAnalysis := analyzeBlockTPS_mixed ch rs ms\<rparr>) = Completed)"
proof (intro conjI impI)
  show "exit_code (main d r) \<noteq> 0 \<longleftrightarrow> (\<exists>f. main d r = Fatal f)" by (rule exit_code_fatal)
  show "\<exists>message. connection r = Rejects message" if "main d r = Fatal ConnectionFailed"
    using that by (rule main_fatal(1))
  show "d = SingleType" if "main d r = Fatal InsufficientFunderBalance"
    using main_fatal(2) [OF that] by simp
  show "\<exists>balance required. funderBalance r = Resolves balance
            \<and> requiredBalance r = Resolves required \<and> balance < required"
    if "main d r = Fatal InsufficientFunderBalance"
    using main_fatal(2) [OF that] by simp
  show "fundedSenders r = Resolves 0" if "main d r = Fatal NoSenders"
    using that by (rule main_fatal(3))
  show "signedCount r = Resolves 0" if "main d r = Fatal NothingSigned"
    using that by (rule main_fatal(4))
  show "\<exists>st. sendResult r = Inr st \<and> pool_txHashes st = []" if "main d r = Fatal NothingBroadcast"
    using that by (rule main_fatal(5))
  show "(\<exists>message. interactive r = Rejects message \<or> funderBalance r = Rejects message
            \<or> requiredBalance r = Rejects message \<or> network r = Rejects message
            \<or> contractsSetup r = Rejects message \<or> fundedSenders r = Rejects message
            \<or> signedCount r = Rejects message \<or> report r = Rejects message)
         \<or> (\<exists>e. sendResult r = Inl e) \<or> (\<exists>e. tpsAnalysis r = Inl e)"
    if "main d r = Fatal Uncaught"
    using that by (rule main_uncaught)
next
  assume c: "main d r = Completed"
  note p = main_perturbed [OF c]
  show "main d (r\<lparr>connection := Rejects message\<rparr>) = Fatal ConnectionFailed" by (rule p(1))
  show "main d (r\<lparr>fundedSenders := Resolves 0\<rparr>) = Fatal NoSenders" by (rule p(2))
  show "main d (r\<lparr>signedCount := Resolves 0\<rparr>) = Fatal NothingSigned" by (rule p(3))
  show "main d (r\<lparr>sendResult := Inr st\<rparr>) = Fatal NothingBroadcast" if "pool_txHashes st = []"
    using that by (rule p(4))
  show "main d (r\<lparr>funderBalance := Resolves balance', requiredBalance := Resolves required'\<rparr>)
      = Fatal InsufficientFunderBalance" if "d = SingleType \<and> balance' < required'"
    using that p(5) by blast
  show "main d (r\<lparr>funderBalance := Rejects message\<rparr>) = Fatal Uncaught" by (rule p(6))
  show "main d (r\<lparr>fundedSenders := Rejects message\<rparr>) = Fatal Uncaught" by (rule p(8))
  show "main d (r\<lparr>signedCount := Rejects message\<rparr>) = Fatal Uncaught" by (rule p(9))
  show "main d (r\<lparr>sendResult := Inl e\<rparr>) = Fatal Uncaught" by (rule p(10))
  show "main d (r\<lparr>tpsAnalysis := Inl e'\<rparr>) = Fatal Uncaught" by (rule p(11))
  show "main d (r\<lparr>report := Rejects message\<rparr>) = Fatal Uncaught" by (rule p(12))
  show "main d (r\<lparr>sendResult := Inr st\<rparr>) = Completed" if "pool_txHashes st \<noteq> []"
    using that by (rule p(14))
  show "main d (r\<lparr>fundedSenders := Resolves n\<rparr>) = Completed" if "0 < n"
    using that by (rule p(15))
  show "main d (r\<lparr>confirmResult := cr\<rparr>) = Completed"
    using c by (simp add: main_ignores_confirmation)
  show "main d (r\<lparr>tpsAnalysis := Inr a\<rparr>) = Completed" by (rule p(16))
next
  assume h: "main d r = Completed \<and> 1 \<le> concurrentRequests
         \<and> (\<forall>i < length signedTxs. conforming (endpoint i))
         \<and> fireAndForgetBroadcast d signedTxs concurrentRequests endpoint arrivals = Some res"
  then have c: "main d r = Completed" by simp
  from h broadcast_none_accepted [of concurrentRequests signedTxs endpoint d arrivals res]
  obtain st where st: "res = Inr st"
    "pool_txHashes st = [] \<longleftrightarrow> (\<forall>i < length signedTxs. \<not> accepts (endpoint i))"
    by blast
  show "main d (r\<lparr>sendResult := res\<rparr>)
      = (if \<exists>i < length signedTxs. accepts (endpoint i) then Completed
         else Fatal NothingBroadcast)"
  proof (cases "pool_txHashes st = []")
    case True
    then show ?thesis using main_perturbed(4) [OF c True] st by auto
  next
    case False
    then show ?thesis using main_perturbed(14) [OF c False] st by auto
  qed
next
  assume h: "main SingleType r = Completed
         \<and> (\<forall>i \<in> blockNumber ` set rs. \<exists>b. getBlock ch i = Resolves (Some b))"
  then obtain a where "analyzeBlockTPS_simple verifyAll concurrentRequests ch rs ex ms = Inr a"
    using analysis_returns_simple [of rs ch verifyAll concurrentRequests ex ms] by blast
  then show "main SingleType
      (r\<lparr>tpsAnalysis := analyzeBlockTPS_simple verifyAll concurrentRequests ch rs ex ms\<rparr>)
      = Completed"
    using main_perturbed(16) [of SingleType r a] h by simp
next
  assume h: "main Mixed r = Completed
         \<and> (\<forall>i \<in> {Min (blockNumber ` set rs) .. Max (blockNumber ` set rs)}.
               \<exists>b. getBlock ch i = Resolves (Some b))"
  then obtain a where "analyzeBlockTPS_mixed ch rs ms = Inr a"
    using analysis_returns_mixed [of rs ch ms] by blast
  then show "main Mixed (r\<lparr>tpsAnalysis := analyzeBlockTPS_mixed ch rs ms\<rparr>) = Completed"
    using main_perturbed(16) [of Mixed r a] h by simp
qed

theorem main_exit_conditions_witness:
  "main Mixed example_run = Completed
   \<and> exit_code (main Mixed example_run) = 0
   \<and> tpsAnalysis example_run = Inr None
   \<and> main Mixed (example_run\<lparr>fundedSenders := Resolves 0\<rparr>) = Fatal NoSenders
   \<and> main Mixed (example_run\<lparr>fundedSenders := Resolves 1\<rparr>) = Completed
   \<and> main Mixed (example_run\<lparr>signedCount := Resolves 0\<rparr>) = Fatal NothingSigned
   \<and> main Mixed (example_run\<lparr>connection := Rejects ''ECONNREFUSED''\<rparr>) = Fatal ConnectionFailed"
proof -
  note t = main_exit_conditions [where d = Mixed and r = example_run and n = 1
      and message = "''ECONNREFUSED''"]
  note p = t [THEN conjunct2, THEN conjunct2, THEN conjunct2, THEN conjunct2, THEN conjunct2,
      THEN conjunct2, THEN conjunct2, THEN conjunct1, THEN mp, OF example_run_completes]
  have "receipts (waitForConfirmations_mixed silent_endpoint [''0xaa''] 60000) = []"
    unfolding waitForConfirmations_mixed_def
    by (rule wait_loop_mixed_never [THEN conjunct1]) (simp add: silent_endpoint_def)
  then have a: "tpsAnalysis example_run = Inr None"
    by (simp add: example_run_def analyzeBlockTPS_mixed_def)
  show ?thesis using p a example_run_completes by simp
qed

theorem every_broadcast_refused_counterexample:
  "connection refused_run = Resolves ()
   \<and> fundedSenders refused_run = Resolves 2
   \<and> signedCount refused_run = Resolves 3
   \<and> outcome_summary (Some (sendResult refused_run)) = Some (0, 3, [], [0, 1, 2])
   \<and> main Mixed refused_run = Fatal NothingBroadcast
   \<and> exit_code (main Mixed refused_run) = 1
   \<and> main SingleType poor_run = Fatal InsufficientFunderBalance
   \<and> exit_code (main SingleType poor_run) = 1"
  by code_simp

end
